theory Spec2Isabelle
  imports Complex_Main "HOL-Library.AList" "HOL-Library.Sublist"
begin

section \<open>Configuration records (package config)\<close>

text \<open>
  The structs of package \<open>config\<close>. Go's \<open>int\<close> is a 64-bit signed integer; the fields
  hold its value as an \<open>int\<close>, and the one place where the code does arithmetic on them
  (\<open>calculateDelay\<close>) writes the wrap-around out.
\<close>

record DelayConfig =
  delay_Fixed :: int
  delay_Min :: int
  delay_Max :: int
  delay_Enabled :: bool

definition wrap64 :: "int \<Rightarrow> int" where
  "wrap64 x = (x + 2 ^ 63) mod 2 ^ 64 - 2 ^ 63"

section \<open>Response delay (handler.go, calculateDelay)\<close>

text \<open>
  \<open>rand.Intn n\<close> panics when \<open>n \<le> 0\<close> and otherwise returns some number of \<open>[0, n)\<close>.
  The random source is the argument \<open>seed\<close>: every value of \<open>[0, n)\<close> is drawn by some seed.
\<close>

datatype panic = IntnInvalidArgument

definition Intn :: "nat \<Rightarrow> int \<Rightarrow> panic + int" where
  "Intn seed n = (if n \<le> 0 then Inl IntnInvalidArgument else Inr (int seed mod n))"

text \<open>
  \<open>calculateDelay\<close> of a handler whose \<open>DelayConfig\<close> pointer is \<open>h\<close> (\<open>None\<close> is the nil
  pointer).
\<close>

definition calculateDelay :: "nat \<Rightarrow> DelayConfig option \<Rightarrow> panic + int" where
  "calculateDelay seed h =
     (case h of
        None \<Rightarrow> Inr 0
      | Some d \<Rightarrow>
          if \<not> delay_Enabled d then Inr 0
          else if delay_Fixed d > 0 then Inr (delay_Fixed d)
          else if delay_Min d \<ge> 0 \<and> delay_Max d > delay_Min d then
            (case Intn seed (wrap64 (wrap64 (delay_Max d - delay_Min d) + 1)) of
               Inl p \<Rightarrow> Inl p
             | Inr r \<Rightarrow> Inr (wrap64 (delay_Min d + r)))
          else Inr 0)"


section \<open>Mock entries and JSON values (package config)\<close>

text \<open>
  A decoded JSON value, as \<open>encoding/json\<close> stores it in an \<open>interface{}\<close>: nil, bool,
  float64 (the number it stands for, a real), string, \<open>[]interface{}\<close> and
  \<open>map[string]interface{}\<close>. A Go map is kept as the list of its entries (no key twice; Go
  fixes no order of iteration, the list's order stands for the one a run takes).
\<close>

datatype json =
    JNull
  | JBool bool
  | JNum real
  | JStr string
  | JArr "json list"
  | JObj "(string \<times> json) list"

record RequestConfig =
  rq_Path :: string
  rq_Method :: string
  rq_Body :: "(string \<times> json) list option"

record ResponseConfig =
  rs_Body :: "(string \<times> json) list option"
  rs_StatusCode :: int
  rs_Headers :: "(string \<times> string) list"

record MockConfig =
  Request :: RequestConfig
  Response :: ResponseConfig

section \<open>The request handler (handler.go)\<close>

record MockHandler =
  Mocks :: "MockConfig list"
  h_DelayConfig :: "DelayConfig option"

definition NewMockHandler :: "MockConfig list \<Rightarrow> DelayConfig option \<Rightarrow> MockHandler" where
  "NewMockHandler mocks delayConfig = \<lparr>Mocks = mocks, h_DelayConfig = delayConfig\<rparr>"

text \<open>
  \<open>reflect.DeepEqual\<close> on decoded JSON values: scalars by \<open>==\<close>, slices by length and
  element, maps by size and by looking every key of the first up in the second.
\<close>

lemma size_json_entry:
  "(k, v) \<in> set m \<Longrightarrow> size v < Suc (size_list (\<lambda>x. Suc (size (snd x))) m)"
  by (induction m) auto

function DeepEqual :: "json \<Rightarrow> json \<Rightarrow> bool" where
  "DeepEqual JNull y = (case y of JNull \<Rightarrow> True | _ \<Rightarrow> False)"
| "DeepEqual (JBool a) y = (case y of JBool b \<Rightarrow> a = b | _ \<Rightarrow> False)"
| "DeepEqual (JNum a) y = (case y of JNum b \<Rightarrow> a = b | _ \<Rightarrow> False)"
| "DeepEqual (JStr a) y = (case y of JStr b \<Rightarrow> a = b | _ \<Rightarrow> False)"
| "DeepEqual (JArr xs) y =
     (case y of
        JArr ys \<Rightarrow>
          length xs = length ys \<and> list_all (\<lambda>p. DeepEqual (fst p) (snd p)) (zip xs ys)
      | _ \<Rightarrow> False)"
| "DeepEqual (JObj m1) y =
     (case y of
        JObj m2 \<Rightarrow>
          length m1 = length m2 \<and>
          list_all
            (\<lambda>kv. case map_of m2 (fst kv) of
                    None \<Rightarrow> False
                  | Some v2 \<Rightarrow> DeepEqual (snd kv) v2) m1
      | _ \<Rightarrow> False)"
  by pat_completeness auto
termination
  apply (relation "measure (\<lambda>(x, y). size x)")
    apply simp
   apply (auto dest!: set_zip_leftD simp: size_json_entry less_Suc_eq_le size_list_estimation')
  done

text \<open>
  \<open>matchesMockBody received expected\<close>: the loop over the entries of \<open>expected\<close>, each
  \<open>return false\<close> an early exit, \<open>continue\<close> the rest of the entries.
\<close>

fun matchesMockBody :: "(string \<times> json) list \<Rightarrow> (string \<times> json) list \<Rightarrow> bool" where
  "matchesMockBody received [] = True"
| "matchesMockBody received ((key, expectedValue) # rest) =
     (case map_of received key of
        None \<Rightarrow> False
      | Some receivedValue \<Rightarrow>
          (case expectedValue of
             JObj expectedMap \<Rightarrow>
               (case receivedValue of
                  JObj receivedMap \<Rightarrow>
                    if \<not> matchesMockBody receivedMap expectedMap then False
                    else matchesMockBody received rest
                | _ \<Rightarrow> False)
           | _ \<Rightarrow>
               if \<not> DeepEqual receivedValue expectedValue then False
               else matchesMockBody received rest))"

text \<open>
  An incoming request: method, URL path, and what \<open>io.ReadAll\<close> gives for the body (the
  handler puts the bytes back after each read, so every read gives the same).
\<close>

datatype body_read = ReadError | Bytes string

record HttpRequest =
  req_Method :: string
  req_Path :: string
  req_Body :: body_read

text \<open>
  \<open>findMatchingMock\<close>: the loop over \<open>h.Mocks\<close>. \<open>unmarshal\<close> is \<open>json.Unmarshal\<close> into a
  \<open>map[string]interface{}\<close> (\<open>None\<close> when it returns an error); the result \<open>None\<close> is the
  Go result \<open>(MockConfig{}, false)\<close>.
\<close>

fun findMatchingMock ::
  "(string \<Rightarrow> (string \<times> json) list option) \<Rightarrow> MockConfig list \<Rightarrow> HttpRequest \<Rightarrow> MockConfig option"
where
  "findMatchingMock unmarshal [] r = None"
| "findMatchingMock unmarshal (mock # rest) r =
     (if req_Path r = rq_Path (Request mock) \<and> req_Method r = rq_Method (Request mock) then
        (case rq_Body (Request mock) of
           None \<Rightarrow> Some mock
         | Some expected \<Rightarrow>
             (case req_Body r of
                ReadError \<Rightarrow> findMatchingMock unmarshal rest r
              | Bytes body \<Rightarrow>
                  (case unmarshal body of
                     None \<Rightarrow> findMatchingMock unmarshal rest r
                   | Some requestBody \<Rightarrow>
                       if \<not> matchesMockBody requestBody expected
                       then findMatchingMock unmarshal rest r
                       else Some mock)))
      else findMatchingMock unmarshal rest r)"





























text \<open>A mock list for the examples: two entries answer \<open>GET /b\<close>.\<close>

definition exampleMocks :: "MockConfig list" where
  "exampleMocks =
     [\<lparr>Request = \<lparr>rq_Path = ''/a'', rq_Method = ''GET'', rq_Body = None\<rparr>,
       Response = \<lparr>rs_Body = None, rs_StatusCode = 200, rs_Headers = []\<rparr>\<rparr>,
      \<lparr>Request = \<lparr>rq_Path = ''/b'', rq_Method = ''GET'', rq_Body = None\<rparr>,
       Response = \<lparr>rs_Body = Some [(''ok'', JBool True)], rs_StatusCode = 201,
                   rs_Headers = [(''X-Mock'', ''first'')]\<rparr>\<rparr>,
      \<lparr>Request = \<lparr>rq_Path = ''/b'', rq_Method = ''GET'', rq_Body = None\<rparr>,
       Response = \<lparr>rs_Body = None, rs_StatusCode = 500, rs_Headers = []\<rparr>\<rparr>]"



section \<open>Classification of changed files (watcher, classifyConfigFile)\<close>

text \<open>
  \<open>filepath.Separator\<close> on the Unix systems the tool is released for, and \<open>strings.Split\<close>
  with a one-character separator: the pieces between the separators, empty pieces kept,
  \<open>[""]\<close> for the empty string.
\<close>

definition Separator :: char where
  "Separator = CHR ''/''"

fun Split :: "string \<Rightarrow> char \<Rightarrow> string list" where
  "Split [] sep = [[]]"
| "Split (c # cs) sep =
     (if c = sep then [] # Split cs sep
      else (case Split cs sep of
              [] \<Rightarrow> [[c]]
            | p # ps \<Rightarrow> (c # p) # ps))"

text \<open>
  \<open>classifyConfigFile relPath\<close> returns \<open>(serviceID, configType)\<close>. Every index is guarded
  by the length test before it, as in the source.
\<close>

definition classifyConfigFile :: "string \<Rightarrow> string \<times> string" where
  "classifyConfigFile relPath =
     (let parts = Split relPath Separator in
      if length parts = 1 \<and> (parts ! 0 = ''config.yaml'' \<or> parts ! 0 = ''config.yml'')
      then ('''', ''global'')
      else if length parts \<ge> 2 then
        (let serviceID = parts ! 0 in
         if length parts = 2 \<and> (parts ! 1 = ''config.yaml'' \<or> parts ! 1 = ''config.yml'')
         then (serviceID, ''service'')
         else if length parts \<ge> 4 \<and> parts ! 1 = ''usecases'' \<and>
                 suffix ''.json'' (parts ! (length parts - 1))
         then (serviceID, ''mock'')
         else (serviceID, ''unknown''))
      else ('''', ''unknown''))"

text \<open>\<open>strings.Join\<close>, the inverse of \<open>Split\<close>; it only serves the proofs.\<close>

fun Join :: "string list \<Rightarrow> char \<Rightarrow> string" where
  "Join [] sep = []"
| "Join [p] sep = p"
| "Join (p # q # ps) sep = p @ sep # Join (q # ps) sep"


section \<open>Configuration files (package config)\<close>

record ServiceReference =
  ref_Name :: string
  ref_Usecase :: string

record GlobalConfig =
  Services :: "ServiceReference list"

record ServiceConfig =
  svc_Port :: int
  svc_Name :: string
  svc_Delay :: DelayConfig

text \<open>
  What the program reads from outside. A configuration file is missing, unreadable,
  malformed (\<open>yaml.Unmarshal\<close> or \<open>json.Unmarshal\<close> fails) or parsed; \<open>globalFile\<close>,
  \<open>serviceFile\<close> and \<open>mocksFile\<close> give that for the file at a path. The library functions
  the model does not define are taken as they are: \<open>filepath.Join\<close>, \<open>filepath.Base\<close>,
  \<open>filepath.Dir\<close>, \<open>strings.ToUpper\<close>, and \<open>mapOrder\<close>, the order in which a \<open>range\<close> over a
  Go map visits its keys (any order, each key once).
\<close>

datatype 'a file_read = Missing | Unreadable | Malformed | Parsed 'a

datatype ConfigError = FileNotFound | ReadFailed | UnmarshalFailed | NoMockConfigurations

record Env =
  filepath_Join :: "string list \<Rightarrow> string"
  filepath_Base :: "string \<Rightarrow> string"
  filepath_Dir :: "string \<Rightarrow> string"
  ToUpper :: "string \<Rightarrow> string"
  mapOrder :: "string list \<Rightarrow> string list"
  globalFile :: "string \<Rightarrow> GlobalConfig file_read"
  serviceFile :: "string \<Rightarrow> ServiceConfig file_read"
  mocksFile :: "string \<Rightarrow> MockConfig list file_read"

text \<open>
  The loaders. \<open>LoadServiceConfig\<close> fills an empty name with the directory's name;
  \<open>LoadMockConfigs\<close> refuses an empty list.
\<close>

definition LoadGlobalConfig :: "Env \<Rightarrow> string \<Rightarrow> ConfigError + GlobalConfig" where
  "LoadGlobalConfig env configPath =
     (case globalFile env configPath of
        Missing \<Rightarrow> Inl FileNotFound
      | Unreadable \<Rightarrow> Inl ReadFailed
      | Malformed \<Rightarrow> Inl UnmarshalFailed
      | Parsed config \<Rightarrow> Inr config)"

definition LoadServiceConfig :: "Env \<Rightarrow> string \<Rightarrow> string \<Rightarrow> ConfigError + ServiceConfig" where
  "LoadServiceConfig env basePath serviceName =
     (let configPath = filepath_Join env [basePath, serviceName, ''config.yaml''] in
      case serviceFile env configPath of
        Missing \<Rightarrow> Inl FileNotFound
      | Unreadable \<Rightarrow> Inl ReadFailed
      | Malformed \<Rightarrow> Inl UnmarshalFailed
      | Parsed config \<Rightarrow>
          Inr (if svc_Name config = '''' then config\<lparr>svc_Name := serviceName\<rparr> else config))"

definition LoadMockConfigs :: "Env \<Rightarrow> string \<Rightarrow> string \<Rightarrow> string \<Rightarrow> ConfigError + MockConfig list" where
  "LoadMockConfigs env basePath serviceName usecase =
     (let configPath = filepath_Join env [basePath, serviceName, ''usecases'', usecase, ''all.json''] in
      case mocksFile env configPath of
        Missing \<Rightarrow> Inl FileNotFound
      | Unreadable \<Rightarrow> Inl ReadFailed
      | Malformed \<Rightarrow> Inl UnmarshalFailed
      | Parsed configs \<Rightarrow> if length configs = 0 then Inl NoMockConfigurations else Inr configs)"

section \<open>Validation (validation.go)\<close>

text \<open>
  One constructor per error the validators append, with the index, name or number its
  message prints; the file name, the same in every error of one call, is left out. A
  \<open>ValidationResult\<close> is the list \<open>Errors\<close>. The maps \<open>serviceNames\<close> and \<open>endpoints\<close> are
  only tested for membership: they are kept as the list of keys entered so far.
\<close>

datatype ValidationError =
    NoServicesDefined
  | ServiceRefNameEmpty nat
  | UsecaseEmpty nat
  | DuplicateServiceName nat string
  | ServiceNameEmpty
  | InvalidPortNumber int
  | PortOutsideRange int
  | NoMocksFound
  | PathEmpty nat
  | MethodEmpty nat
  | InvalidMethod nat string
  | DuplicateEndpoint nat string string
  | InvalidStatusCode nat int

type_synonym ValidationResult = "ValidationError list"

definition IsValid :: "ValidationResult \<Rightarrow> bool" where
  "IsValid r \<longleftrightarrow> length r = 0"

fun validateServiceRefs ::
  "nat \<Rightarrow> string list \<Rightarrow> ServiceReference list \<Rightarrow> ValidationResult \<Rightarrow> ValidationResult" where
  "validateServiceRefs i serviceNames [] result = result"
| "validateServiceRefs i serviceNames (service # rest) result =
     (let r1 = (if ref_Name service = '''' then result @ [ServiceRefNameEmpty i] else result);
          r2 = (if ref_Usecase service = '''' then r1 @ [UsecaseEmpty i] else r1);
          r3 = (if ref_Name service \<in> set serviceNames
                then r2 @ [DuplicateServiceName i (ref_Name service)] else r2)
      in validateServiceRefs (Suc i) (ref_Name service # serviceNames) rest r3)"

definition ValidateGlobalConfig :: "GlobalConfig \<Rightarrow> ValidationResult" where
  "ValidateGlobalConfig cfg =
     (let result = (if length (Services cfg) = 0 then [NoServicesDefined] else [])
      in validateServiceRefs 0 [] (Services cfg) result)"

definition ValidateServiceConfig :: "ServiceConfig \<Rightarrow> ValidationResult" where
  "ValidateServiceConfig cfg =
     (let r1 = (if svc_Name cfg = '''' then [ServiceNameEmpty] else [])
      in if svc_Port cfg \<le> 0 then r1 @ [InvalidPortNumber (svc_Port cfg)]
         else if svc_Port cfg < 1024 \<or> svc_Port cfg > 65535 then r1 @ [PortOutsideRange (svc_Port cfg)]
         else r1)"

definition validMethods :: "string list" where
  "validMethods = [''GET'', ''POST'', ''PUT'', ''DELETE'', ''PATCH'', ''HEAD'', ''OPTIONS'']"

fun validateMocks ::
  "(string \<Rightarrow> string) \<Rightarrow> nat \<Rightarrow> string list \<Rightarrow> MockConfig list \<Rightarrow> ValidationResult \<Rightarrow> ValidationResult" where
  "validateMocks toUpper i endpoints [] result = result"
| "validateMocks toUpper i endpoints (mock # rest) result =
     (let r1 = (if rq_Path (Request mock) = '''' then result @ [PathEmpty i] else result);
          r2 = (if rq_Method (Request mock) = '''' then r1 @ [MethodEmpty i]
                else if toUpper (rq_Method (Request mock)) \<notin> set validMethods
                then r1 @ [InvalidMethod i (rq_Method (Request mock))] else r1);
          endpointKey = toUpper (rq_Method (Request mock)) @ '':'' @ rq_Path (Request mock);
          r3 = (if endpointKey \<in> set endpoints
                then r2 @ [DuplicateEndpoint i (rq_Method (Request mock)) (rq_Path (Request mock))]
                else r2);
          r4 = (if rs_StatusCode (Response mock) < 100 \<or> rs_StatusCode (Response mock) > 599
                then r3 @ [InvalidStatusCode i (rs_StatusCode (Response mock))] else r3)
      in validateMocks toUpper (Suc i) (endpointKey # endpoints) rest r4)"

definition ValidateMockConfigs :: "(string \<Rightarrow> string) \<Rightarrow> MockConfig list \<Rightarrow> ValidationResult" where
  "ValidateMockConfigs toUpper mocks =
     (let result = (if length mocks = 0 then [NoMocksFound] else [])
      in validateMocks toUpper 0 [] mocks result)"

section \<open>Servers and their manager (server.go)\<close>

text \<open>
  A \<open>MockServer\<close> (its \<open>http.Server\<close> is determined by port and handler). The manager holds
  the Go fields \<open>Servers\<close>, \<open>ConfigRoot\<close>, \<open>serviceMap\<close> and \<open>portMap\<close>, the two maps as
  association lists read with \<open>map_of\<close>; \<open>effects\<close> is not a Go field: it records, in
  order, the servers the manager stopped and started and the port warnings it logged.
\<close>

record MockServer =
  ServiceName :: string
  Port :: int
  Handler :: MockHandler

definition NewMockServer ::
  "string \<Rightarrow> int \<Rightarrow> MockConfig list \<Rightarrow> ServiceConfig option \<Rightarrow> MockServer" where
  "NewMockServer serviceName port mocks serviceConfig =
     (let delayConfig = (case serviceConfig of None \<Rightarrow> None | Some c \<Rightarrow> Some (svc_Delay c))
      in \<lparr>ServiceName = serviceName, Port = port, Handler = NewMockHandler mocks delayConfig\<rparr>)"

datatype effect =
    Stop MockServer
  | Start MockServer
  | PortInUseWarning int string

record ServerManager =
  Servers :: "MockServer list"
  ConfigRoot :: string
  serviceMap :: "(string \<times> MockServer) list"
  portMap :: "(int \<times> bool) list"
  effects :: "effect list"

definition NewServerManager :: "string \<Rightarrow> ServerManager" where
  "NewServerManager configRoot =
     \<lparr>Servers = [], ConfigRoot = configRoot, serviceMap = [], portMap = [], effects = []\<rparr>"

definition isPortInUse :: "Env \<Rightarrow> ServerManager \<Rightarrow> int \<Rightarrow> string \<Rightarrow> string \<times> bool" where
  "isPortInUse env m port serviceName =
     (case find (\<lambda>name. case map_of (serviceMap m) name of
                          None \<Rightarrow> False
                        | Some server \<Rightarrow> Port server = port \<and> name \<noteq> serviceName)
             (mapOrder env (map fst (serviceMap m))) of
        Some name \<Rightarrow> (name, True)
      | None \<Rightarrow> ('''', False))"

definition GetServerByService :: "ServerManager \<Rightarrow> string \<Rightarrow> MockServer option" where
  "GetServerByService m serviceName = map_of (serviceMap m) serviceName"

text \<open>
  The loop that takes the first server of a given name out of the slice \<open>Servers\<close>
  (\<open>append(m.Servers[:i], m.Servers[i+1:]...)\<close> followed by \<open>break\<close>).
\<close>

fun removeFromServers :: "string \<Rightarrow> MockServer list \<Rightarrow> MockServer list" where
  "removeFromServers name [] = []"
| "removeFromServers name (s # rest) =
     (if ServiceName s = name then rest else s # removeFromServers name rest)"

definition AddServer :: "Env \<Rightarrow> MockServer \<Rightarrow> ServerManager \<Rightarrow> ServerManager" where
  "AddServer env server m =
     (let m1 = (case map_of (serviceMap m) (ServiceName server) of
                  None \<Rightarrow> m
                | Some existing \<Rightarrow>
                    m\<lparr>Servers := removeFromServers (ServiceName server) (Servers m),
                      portMap := AList.delete (Port existing) (portMap m)\<rparr>);
          m2 = (case isPortInUse env m1 (Port server) (ServiceName server) of
                  (service, inUse) \<Rightarrow>
                    if inUse then m1\<lparr>effects := effects m1 @ [PortInUseWarning (Port server) service]\<rparr>
                    else m1)
      in m2\<lparr>Servers := Servers m2 @ [server],
            serviceMap := AList.update (ServiceName server) server (serviceMap m2),
            portMap := AList.update (Port server) True (portMap m2)\<rparr>)"

section \<open>Reloading (reloader.go)\<close>

text \<open>
  \<open>ReloadService\<close> and \<open>ReloadGlobalConfig\<close> return the error (\<open>None\<close> is \<open>nil\<close>) and the
  manager as they leave it. \<open>stopRemoved\<close> is the body of the last loop of
  \<open>ReloadGlobalConfig\<close> for a name that is not in \<open>processedServices\<close>. Binding the port
  happens in a goroutine whose failure is only logged: it is the effect \<open>Start\<close>.
\<close>

datatype reload_error =
    LoadServiceConfigFailed ConfigError
  | ServiceValidationFailed ValidationResult
  | LoadMockConfigsFailed ConfigError
  | MockValidationFailed ValidationResult
  | LoadGlobalConfigFailed ConfigError
  | GlobalValidationFailed ValidationResult

definition ReloadService ::
  "Env \<Rightarrow> string \<Rightarrow> string \<Rightarrow> ServerManager \<Rightarrow> reload_error option \<times> ServerManager" where
  "ReloadService env serviceName usecase m =
     (case LoadServiceConfig env (ConfigRoot m) serviceName of
        Inl err \<Rightarrow> (Some (LoadServiceConfigFailed err), m)
      | Inr svcCfg \<Rightarrow>
          if \<not> IsValid (ValidateServiceConfig svcCfg)
          then (Some (ServiceValidationFailed (ValidateServiceConfig svcCfg)), m)
          else
            (case LoadMockConfigs env (ConfigRoot m) serviceName usecase of
               Inl err \<Rightarrow> (Some (LoadMockConfigsFailed err), m)
             | Inr mocks \<Rightarrow>
                 if \<not> IsValid (ValidateMockConfigs (ToUpper env) mocks)
                 then (Some (MockValidationFailed (ValidateMockConfigs (ToUpper env) mocks)), m)
                 else
                   (let m1 = (case GetServerByService m serviceName of
                                None \<Rightarrow> m
                              | Some existingServer \<Rightarrow>
                                  m\<lparr>effects := effects m @ [Stop existingServer]\<rparr>);
                        mockServer = NewMockServer serviceName (svc_Port svcCfg) mocks (Some svcCfg);
                        m2 = AddServer env mockServer m1
                    in (None, m2\<lparr>effects := effects m2 @ [Start mockServer]\<rparr>))))"

definition stopRemoved :: "string \<Rightarrow> ServerManager \<Rightarrow> ServerManager" where
  "stopRemoved name m =
     (case GetServerByService m name of
        None \<Rightarrow> m
      | Some server \<Rightarrow>
          m\<lparr>effects := effects m @ [Stop server],
            serviceMap := AList.delete name (serviceMap m),
            portMap := AList.delete (Port server) (portMap m),
            Servers := removeFromServers name (Servers m)\<rparr>)"

definition ReloadGlobalConfig :: "Env \<Rightarrow> ServerManager \<Rightarrow> reload_error option \<times> ServerManager" where
  "ReloadGlobalConfig env m =
     (case LoadGlobalConfig env (filepath_Join env [ConfigRoot m, ''config.yaml'']) of
        Inl err \<Rightarrow> (Some (LoadGlobalConfigFailed err), m)
      | Inr globalCfg \<Rightarrow>
          if \<not> IsValid (ValidateGlobalConfig globalCfg)
          then (Some (GlobalValidationFailed (ValidateGlobalConfig globalCfg)), m)
          else
            (let currentServices = remdups (map ServiceName (Servers m));
                 processedServices = map ref_Name (Services globalCfg);
                 m1 = fold (\<lambda>svcRef m'. snd (ReloadService env (ref_Name svcRef) (ref_Usecase svcRef) m'))
                        (Services globalCfg) m;
                 m2 = fold (\<lambda>name m'. if name \<notin> set processedServices then stopRemoved name m' else m')
                        (mapOrder env currentServices) m1
             in (None, m2)))"

section \<open>Hot reload (hotreload.go)\<close>

record ConfigChangeEvent =
  ev_Path :: string
  ev_ModTime :: int
  ev_IsDeleted :: bool
  ev_ServiceID :: string
  ev_ConfigType :: string

definition getServiceUsecase :: "string \<Rightarrow> string \<Rightarrow> string \<times> reload_error option" where
  "getServiceUsecase configRoot serviceID = (''default'', None)"

definition extractUsecaseFromPath :: "Env \<Rightarrow> string \<Rightarrow> string" where
  "extractUsecaseFromPath env path = (let dir = filepath_Dir env path in filepath_Base env dir)"

definition handleConfigChange :: "Env \<Rightarrow> ConfigChangeEvent \<Rightarrow> ServerManager \<Rightarrow> ServerManager" where
  "handleConfigChange env event m =
     (if ev_IsDeleted event then m
      else if ev_ConfigType event = ''global'' then snd (ReloadGlobalConfig env m)
      else if ev_ConfigType event = ''service'' then
        (case getServiceUsecase (ConfigRoot m) (ev_ServiceID event) of
           (usecase, Some err) \<Rightarrow> m
         | (usecase, None) \<Rightarrow> snd (ReloadService env (ev_ServiceID event) usecase m))
      else if ev_ConfigType event = ''mock'' then
        (let usecase = extractUsecaseFromPath env (ev_Path event) in
         if usecase = '''' then m
         else snd (ReloadService env (ev_ServiceID event) usecase m))
      else m)"

section \<open>Debouncing (watcher, debounceEvent)\<close>

text \<open>
  Time is the monotonic clock reading, an integer (\<open>time.Duration\<close> counts nanoseconds).
  The watcher holds \<open>debounceDelay\<close> and \<open>recentEvents\<close>; \<open>timers\<close> are the pending
  \<open>time.AfterFunc\<close> calls, each with its deadline and the event its closure captured, and
  \<open>callbacks\<close> lists the calls of \<open>cw.callback\<close> made so far with the time of each.
\<close>

record ConfigWatcher =
  debounceDelay :: int
  recentEvents :: "(string \<times> int) list"
  timers :: "(int \<times> ConfigChangeEvent) list"
  callbacks :: "(int \<times> ConfigChangeEvent) list"

definition NewConfigWatcher :: "int \<Rightarrow> ConfigWatcher" where
  "NewConfigWatcher delay = \<lparr>debounceDelay = delay, recentEvents = [], timers = [], callbacks = []\<rparr>"

text \<open>
  \<open>debounceEvent\<close> run at time \<open>now\<close> (the body takes no time: \<open>time.Since(lastEvent)\<close> is
  \<open>now - lastEvent\<close>), and the closure given to \<open>time.AfterFunc\<close>, run at time \<open>now\<close>.
\<close>

definition debounceEvent :: "int \<Rightarrow> ConfigChangeEvent \<Rightarrow> ConfigWatcher \<Rightarrow> ConfigWatcher" where
  "debounceEvent now event cw =
     (let cw1 = cw\<lparr>recentEvents := AList.update (ev_Path event) now (recentEvents cw)\<rparr>
      in case map_of (recentEvents cw) (ev_Path event) of
           Some lastEvent \<Rightarrow>
             if now - lastEvent < debounceDelay cw
             then cw1\<lparr>timers := timers cw1 @ [(now + debounceDelay cw, event)]\<rparr>
             else cw1\<lparr>callbacks := callbacks cw1 @ [(now, event)]\<rparr>
         | None \<Rightarrow> cw1\<lparr>callbacks := callbacks cw1 @ [(now, event)]\<rparr>)"

definition timerFired :: "int \<Rightarrow> ConfigChangeEvent \<Rightarrow> ConfigWatcher \<Rightarrow> ConfigWatcher" where
  "timerFired now event cw =
     (case map_of (recentEvents cw) (ev_Path event) of
        None \<Rightarrow> cw
      | Some lastEventTime \<Rightarrow>
          if now - lastEventTime \<ge> debounceDelay cw
          then cw\<lparr>callbacks := callbacks cw @ [(now, event)]\<rparr>
          else cw)"

text \<open>
  The runtime: \<open>advance t\<close> runs every pending timer whose deadline is at most \<open>t\<close>, each
  at its deadline, in the order they were armed; \<open>arrive (t, e)\<close> is the event \<open>e\<close> reaching
  \<open>debounceEvent\<close> at time \<open>t\<close>, after the timers due by then (a timer due at the very
  instant of an arrival runs first); \<open>watch arrivals t\<close> is the watcher at time \<open>t\<close> after
  the given arrivals.
\<close>

definition advance :: "int \<Rightarrow> ConfigWatcher \<Rightarrow> ConfigWatcher" where
  "advance t cw =
     fold (\<lambda>(deadline, event). timerFired deadline event)
       (filter (\<lambda>(deadline, event). deadline \<le> t) (timers cw))
       (cw\<lparr>timers := filter (\<lambda>(deadline, event). \<not> deadline \<le> t) (timers cw)\<rparr>)"

definition arrive :: "int \<times> ConfigChangeEvent \<Rightarrow> ConfigWatcher \<Rightarrow> ConfigWatcher" where
  "arrive te cw = debounceEvent (fst te) (snd te) (advance (fst te) cw)"

definition watch :: "(int \<times> ConfigChangeEvent) list \<Rightarrow> int \<Rightarrow> ConfigWatcher \<Rightarrow> ConfigWatcher" where
  "watch arrivals t cw = advance t (fold arrive arrivals cw)"

text \<open>A change event for the examples.\<close>

definition changeAt :: "string \<Rightarrow> ConfigChangeEvent" where
  "changeAt path = \<lparr>ev_Path = path, ev_ModTime = 0, ev_IsDeleted = False, ev_ServiceID = ''svc'',
     ev_ConfigType = ''service''\<rparr>"

section \<open>Consistency of the manager's state\<close>

text \<open>
  The state the specification asks for. \<open>namesConsistent\<close>: the slice \<open>Servers\<close> holds every
  service name once and \<open>serviceMap\<close> has exactly one entry per server of the slice, under
  its name. \<open>portEntries\<close>: \<open>portMap\<close> has exactly the ports of the servers of the slice as
  keys, each once. \<open>fleetConsistent\<close> is both.
\<close>

definition namesConsistent :: "ServerManager \<Rightarrow> bool" where
  "namesConsistent m \<longleftrightarrow>
     distinct (map ServiceName (Servers m)) \<and> distinct (map fst (serviceMap m)) \<and>
     set (serviceMap m) = set (map (\<lambda>s. (ServiceName s, s)) (Servers m))"

definition portEntries :: "ServerManager \<Rightarrow> bool" where
  "portEntries m \<longleftrightarrow>
     distinct (map fst (portMap m)) \<and>
     set (portMap m) = set (map (\<lambda>s. (Port s, True)) (Servers m))"

definition fleetConsistent :: "ServerManager \<Rightarrow> bool" where
  "fleetConsistent m \<longleftrightarrow> namesConsistent m \<and> portEntries m"

text \<open>
  The port warnings among the effects, and the invariant the operations keep: the names
  are consistent, and so are the ports, no two servers on one, as long as no port warning
  was logged.
\<close>

fun isWarning :: "effect \<Rightarrow> bool" where
  "isWarning (PortInUseWarning port service) = True"
| "isWarning (Stop server) = False"
| "isWarning (Start server) = False"

definition warnings :: "ServerManager \<Rightarrow> effect list" where
  "warnings m = filter isWarning (effects m)"

definition fleetInvariant :: "ServerManager \<Rightarrow> bool" where
  "fleetInvariant m \<longleftrightarrow>
     namesConsistent m \<and>
     (warnings m = [] \<longrightarrow> portEntries m \<and> distinct (map Port (Servers m)))"

text \<open>
  A \<open>range\<close> over a map visits every key and nothing else.
\<close>

definition fairOrder :: "Env \<Rightarrow> bool" where
  "fairOrder env \<longleftrightarrow> (\<forall>keys. set (mapOrder env keys) = set keys)"

text \<open>
  A fleet operation with the outside world it runs in (the files may change between two
  operations).
\<close>

datatype fleet_op =
    OpAddServer MockServer
  | OpReloadService string string
  | OpReloadGlobalConfig

fun applyOp :: "Env \<times> fleet_op \<Rightarrow> ServerManager \<Rightarrow> ServerManager" where
  "applyOp (env, OpAddServer server) m = AddServer env server m"
| "applyOp (env, OpReloadService serviceName usecase) m = snd (ReloadService env serviceName usecase m)"
| "applyOp (env, OpReloadGlobalConfig) m = snd (ReloadGlobalConfig env m)"

text \<open>
  What \<open>ReloadService\<close> decides before it touches the manager: the error it returns, or the
  server it builds from the service's configuration and the usecase's mocks.
\<close>

definition reloadOutcome :: "Env \<Rightarrow> string \<Rightarrow> string \<Rightarrow> string \<Rightarrow> reload_error + MockServer" where
  "reloadOutcome env configRoot serviceName usecase =
     (case LoadServiceConfig env configRoot serviceName of
        Inl err \<Rightarrow> Inl (LoadServiceConfigFailed err)
      | Inr svcCfg \<Rightarrow>
          if \<not> IsValid (ValidateServiceConfig svcCfg)
          then Inl (ServiceValidationFailed (ValidateServiceConfig svcCfg))
          else
            (case LoadMockConfigs env configRoot serviceName usecase of
               Inl err \<Rightarrow> Inl (LoadMockConfigsFailed err)
             | Inr mocks \<Rightarrow>
                 if \<not> IsValid (ValidateMockConfigs (ToUpper env) mocks)
                 then Inl (MockValidationFailed (ValidateMockConfigs (ToUpper env) mocks))
                 else Inr (NewMockServer serviceName (svc_Port svcCfg) mocks (Some svcCfg))))"


text \<open>
  The body of the loop of \<open>ValidateMockConfigs\<close> over one mock entry, for the proofs.
\<close>

definition checkMock ::
  "(string \<Rightarrow> string) \<Rightarrow> nat \<Rightarrow> string list \<Rightarrow> MockConfig \<Rightarrow> ValidationResult \<Rightarrow> ValidationResult" where
  "checkMock toUpper i endpoints mock result =
     (let r1 = (if rq_Path (Request mock) = [] then result @ [PathEmpty i] else result);
          r2 = (if rq_Method (Request mock) = [] then r1 @ [MethodEmpty i]
                else if toUpper (rq_Method (Request mock)) \<notin> set validMethods
                then r1 @ [InvalidMethod i (rq_Method (Request mock))] else r1);
          endpointKey = toUpper (rq_Method (Request mock)) @ '':'' @ rq_Path (Request mock);
          r3 = (if endpointKey \<in> set endpoints
                then r2 @ [DuplicateEndpoint i (rq_Method (Request mock)) (rq_Path (Request mock))]
                else r2);
          r4 = (if rs_StatusCode (Response mock) < 100 \<or> rs_StatusCode (Response mock) > 599
                then r3 @ [InvalidStatusCode i (rs_StatusCode (Response mock))] else r3)
      in r4)"

section \<open>An example installation\<close>

text \<open>
  The configuration root \<open>/cfg\<close> holds a global configuration naming service \<open>B\<close> with
  usecase \<open>u3\<close>, \<open>B\<close>'s service configuration (port 8082) and the mocks of \<open>u3\<close>; nothing
  else. Paths are joined with \<open>/\<close>, and \<open>filepath.Base\<close> and \<open>filepath.Dir\<close> are given for
  clean paths with a directory part, as the paths of the example are; its methods are
  upper case already.
  \<open>twoServices\<close> is a manager running \<open>A\<close> on 8081 and \<open>B\<close> on 8082.
\<close>

definition u3Mocks :: "MockConfig list" where
  "u3Mocks =
     [\<lparr>Request = \<lparr>rq_Path = ''/orders'', rq_Method = ''GET'', rq_Body = None\<rparr>,
       Response = \<lparr>rs_Body = Some [(''state'', JStr ''shipped'')], rs_StatusCode = 200,
                   rs_Headers = [(''Content-Type'', ''application/json'')]\<rparr>\<rparr>]"

definition exampleEnv :: Env where
  "exampleEnv =
     \<lparr>filepath_Join = (\<lambda>elems. Join elems Separator),
      filepath_Base = (\<lambda>path. last (Split path Separator)),
      filepath_Dir = (\<lambda>path. Join (butlast (Split path Separator)) Separator),
      ToUpper = (\<lambda>s. s),
      mapOrder = (\<lambda>keys. keys),
      globalFile = (\<lambda>path. if path = ''/cfg/config.yaml''
                            then Parsed \<lparr>Services = [\<lparr>ref_Name = ''B'', ref_Usecase = ''u3''\<rparr>]\<rparr>
                            else Missing),
      serviceFile = (\<lambda>path. if path = ''/cfg/B/config.yaml''
                             then Parsed \<lparr>svc_Port = 8082, svc_Name = ''B'',
                                    svc_Delay = \<lparr>delay_Fixed = 0, delay_Min = 0, delay_Max = 0,
                                                 delay_Enabled = False\<rparr>\<rparr>
                             else Missing),
      mocksFile = (\<lambda>path. if path = ''/cfg/B/usecases/u3/all.json'' then Parsed u3Mocks
                           else Missing)\<rparr>"

definition serverOn :: "string \<Rightarrow> int \<Rightarrow> MockServer" where
  "serverOn name port = NewMockServer name port exampleMocks None"

definition twoServices :: ServerManager where
  "twoServices =
     AddServer exampleEnv (serverOn ''B'' 8082)
       (AddServer exampleEnv (serverOn ''A'' 8081) (NewServerManager ''/cfg''))"

definition reloadedB :: MockServer where
  "reloadedB =
     NewMockServer ''B'' 8082 u3Mocks
       (Some \<lparr>svc_Port = 8082, svc_Name = ''B'',
              svc_Delay = \<lparr>delay_Fixed = 0, delay_Min = 0, delay_Max = 0, delay_Enabled = False\<rparr>\<rparr>)"

definition serviceChangeB :: ConfigChangeEvent where
  "serviceChangeB =
     \<lparr>ev_Path = ''/cfg/B/config.yaml'', ev_ModTime = 0, ev_IsDeleted = False, ev_ServiceID = ''B'',
      ev_ConfigType = ''service''\<rparr>"

section \<open>Bursts of events\<close>

text \<open>
  \<open>forPath path xs\<close> keeps the entries of a log (arrivals, pending timers, callbacks) that
  belong to \<open>path\<close>. Two successive arrivals for \<open>path\<close> are \<open>rapid\<close> when the second comes
  later than the first and less than one debounce window after it.
\<close>

definition forPath :: "string \<Rightarrow> (int \<times> ConfigChangeEvent) list \<Rightarrow> (int \<times> ConfigChangeEvent) list" where
  "forPath path xs = filter (\<lambda>x. ev_Path (snd x) = path) xs"

definition rapid :: "int \<Rightarrow> string \<Rightarrow> int \<times> ConfigChangeEvent \<Rightarrow> int \<times> ConfigChangeEvent \<Rightarrow> bool" where
  "rapid delay path a b \<longleftrightarrow>
     fst a < fst b \<and> fst b < fst a + delay \<and> ev_Path (snd a) = path \<and> ev_Path (snd b) = path"

text \<open>
  The callbacks that the arrivals \<open>xs\<close> of one path, at increasing times, have caused by
  time \<open>t\<close>, told from the arrival times alone; \<open>prev\<close> is the time of the arrival before
  \<open>xs\<close>, if any. An arrival at least one window after the one before it (or with none
  before it) is called back at once. Any other arrival is called back one window later,
  provided that no further arrival has come before then and that this instant is not
  after \<open>t\<close>. \<open>pendingAt\<close> says that the last arrival is of the second kind and its instant
  is still to come at time \<open>t\<close>.
\<close>

fun debounced ::
  "int \<Rightarrow> int \<Rightarrow> int option \<Rightarrow> (int \<times> ConfigChangeEvent) list \<Rightarrow> (int \<times> ConfigChangeEvent) list" where
  "debounced delay t prev [] = []"
| "debounced delay t prev (a # rest) =
     (if (case prev of None \<Rightarrow> True | Some p \<Rightarrow> fst a - p \<ge> delay) then [a]
      else if (case rest of [] \<Rightarrow> fst a + delay \<le> t | b # others \<Rightarrow> fst a + delay \<le> fst b)
      then [(fst a + delay, snd a)]
      else []) @ debounced delay t (Some (fst a)) rest"

fun pendingAt :: "int \<Rightarrow> int \<Rightarrow> int option \<Rightarrow> (int \<times> ConfigChangeEvent) list \<Rightarrow> bool" where
  "pendingAt delay t prev [] = False"
| "pendingAt delay t prev [a] =
     (\<not> (case prev of None \<Rightarrow> True | Some p \<Rightarrow> fst a - p \<ge> delay) \<and> t < fst a + delay)"
| "pendingAt delay t prev (a # b # rest) = pendingAt delay t (Some (fst a)) (b # rest)"

text \<open>
  Whether a timer with deadline and event \<open>x\<close>, run at its deadline in the watcher \<open>cw\<close>,
  makes its callback: the test of \<open>timerFired\<close>.
\<close>

definition fires :: "ConfigWatcher \<Rightarrow> int \<times> ConfigChangeEvent \<Rightarrow> bool" where
  "fires cw x \<longleftrightarrow>
     (case map_of (recentEvents cw) (ev_Path (snd x)) of
        None \<Rightarrow> False
      | Some lastEventTime \<Rightarrow> fst x - lastEventTime \<ge> debounceDelay cw)"

text \<open>
  A watcher \<open>tracks\<close> the arrivals \<open>ps\<close> of \<open>path\<close> at time \<open>t\<close>: the last of them is the time
  recorded for the path, the callbacks made for the path are the ones \<open>debounced\<close> tells,
  and of the timers pending for the path only the last arrival's can still fire, which
  is there exactly when \<open>pendingAt\<close> says so.
\<close>

definition tracks :: "int \<Rightarrow> string \<Rightarrow> int \<Rightarrow> (int \<times> ConfigChangeEvent) list \<Rightarrow> ConfigWatcher \<Rightarrow> bool" where
  "tracks delay path t ps cw \<longleftrightarrow>
     debounceDelay cw = delay \<and>
     map_of (recentEvents cw) path = (if ps = [] then None else Some (fst (last ps))) \<and>
     (ps \<noteq> [] \<longrightarrow> fst (last ps) \<le> t) \<and>
     forPath path (callbacks cw) = debounced delay t None ps \<and>
     (\<exists>dead. forPath path (timers cw) =
                dead @ (if pendingAt delay t None ps
                        then [(fst (last ps) + delay, snd (last ps))] else []) \<and>
             list_all (\<lambda>x. ps \<noteq> [] \<and> fst x < fst (last ps) + delay) dead)"
section \<open>Properties of the response delay\<close>

lemma wrap64_id: "- (2 ^ 63) \<le> x \<Longrightarrow> x < 2 ^ 63 \<Longrightarrow> wrap64 x = x"
  by (simp add: wrap64_def)

lemma calculateDelay_disabled: "\<not> delay_Enabled d \<Longrightarrow> calculateDelay seed (Some d) = Inr 0"
  by (simp add: calculateDelay_def)

lemma calculateDelay_fixed:
  "delay_Enabled d \<Longrightarrow> delay_Fixed d > 0 \<Longrightarrow> calculateDelay seed (Some d) = Inr (delay_Fixed d)"
  by (simp add: calculateDelay_def)

lemma calculateDelay_range:
  assumes "delay_Enabled d" "delay_Fixed d \<le> 0" "0 \<le> delay_Min d" "delay_Min d < delay_Max d"
    and "delay_Max d < 2 ^ 63 - 1"
  shows "\<exists>r. calculateDelay seed (Some d) = Inr r \<and> delay_Min d \<le> r \<and> r \<le> delay_Max d"
proof -
  let ?n = "delay_Max d - delay_Min d + 1"
  have n: "wrap64 (wrap64 (delay_Max d - delay_Min d) + 1) = ?n"
    using assms by (simp add: wrap64_id)
  have pos: "0 < ?n" using assms by simp
  have lo: "0 \<le> int seed mod ?n" using pos by (rule pos_mod_sign)
  have hi: "int seed mod ?n < ?n" using pos by (rule pos_mod_bound)
  have w: "wrap64 (delay_Min d + int seed mod ?n) = delay_Min d + int seed mod ?n"
    using assms lo hi by (intro wrap64_id) linarith+
  show ?thesis
    using assms n pos lo hi w by (simp add: calculateDelay_def Intn_def)
qed

text \<open>
  C1. With delay enabled, no fixed delay and \<open>min = max = 100\<close>, the claim asks for a delay
  of exactly 100 ms. The guard of the random range is \<open>Max > Min\<close>, so the code falls through
  to its last \<open>return 0\<close>: no delay at all, whatever the random source.
\<close>

theorem calculateDelay_min_eq_max:
  "calculateDelay seed (Some \<lparr>delay_Fixed = 0, delay_Min = 100, delay_Max = 100, delay_Enabled = True\<rparr>) = Inr 0"
  by (simp add: calculateDelay_def)

section \<open>Properties of the validators\<close>

text \<open>
  A mock list that passes \<open>ValidateMockConfigs\<close> has only status codes of \<open>[100, 599]\<close>: the
  handlers the program builds (all from validated lists) never make \<open>WriteHeader\<close> panic.
\<close>

lemma validateMocks_Cons:
  "validateMocks toUpper i endpoints (mock # rest) result =
     validateMocks toUpper (Suc i)
       ((toUpper (rq_Method (Request mock)) @ '':'' @ rq_Path (Request mock)) # endpoints) rest
       (checkMock toUpper i endpoints mock result)"
  by (simp add: checkMock_def Let_def)

lemma checkMock_Nil:
  "checkMock toUpper i endpoints mock result = [] \<Longrightarrow>
     result = [] \<and> 100 \<le> rs_StatusCode (Response mock) \<and> rs_StatusCode (Response mock) \<le> 599"
  by (simp add: checkMock_def Let_def split: if_splits)

lemma validateMocks_grows:
  "validateMocks toUpper i endpoints mocks result = [] \<Longrightarrow> result = []"
proof (induction mocks arbitrary: i endpoints result)
  case Nil
  then show ?case by simp
next
  case (Cons mock rest)
  from Cons.prems have "validateMocks toUpper (Suc i)
       ((toUpper (rq_Method (Request mock)) @ '':'' @ rq_Path (Request mock)) # endpoints) rest
       (checkMock toUpper i endpoints mock result) = []"
    by (simp only: validateMocks_Cons)
  then have "checkMock toUpper i endpoints mock result = []" by (rule Cons.IH)
  then show ?case by (simp add: checkMock_Nil)
qed

lemma validateMocks_status:
  "validateMocks toUpper i endpoints mocks result = [] \<Longrightarrow> mock \<in> set mocks \<Longrightarrow>
     100 \<le> rs_StatusCode (Response mock) \<and> rs_StatusCode (Response mock) \<le> 599"
proof (induction mocks arbitrary: i endpoints result)
  case Nil
  then show ?case by simp
next
  case (Cons x rest)
  from Cons.prems(1) have step: "validateMocks toUpper (Suc i)
       ((toUpper (rq_Method (Request x)) @ '':'' @ rq_Path (Request x)) # endpoints) rest
       (checkMock toUpper i endpoints x result) = []"
    by (simp only: validateMocks_Cons)
  show ?case
  proof (cases "mock = x")
    case True
    from step have "checkMock toUpper i endpoints x result = []" by (rule validateMocks_grows)
    with True show ?thesis by (simp add: checkMock_Nil)
  next
    case False
    with Cons.prems(2) have "mock \<in> set rest" by simp
    with step show ?thesis by (rule Cons.IH)
  qed
qed

lemma valid_mocks_status:
  assumes "IsValid (ValidateMockConfigs toUpper mocks)" and "mock \<in> set mocks"
  shows "100 \<le> rs_StatusCode (Response mock) \<and> rs_StatusCode (Response mock) \<le> 599"
proof -
  from assms(1) have "validateMocks toUpper 0 [] mocks
      (if length mocks = 0 then [NoMocksFound] else []) = []"
    by (simp add: IsValid_def ValidateMockConfigs_def Let_def)
  with assms(2) show ?thesis using validateMocks_status by blast
qed

section \<open>Properties of the request handler\<close>




text \<open>
  C5. The body predicate holds exactly when every key of the expected body is present in
  the actual body with a matching value: an expected object needs an actual object and
  the same rule inside it, anything else (scalar, array, null) needs a deeply equal value.
  Keys of the actual body that the expected body does not name play no part.
\<close>

theorem matchesMockBody_subset:
  "matchesMockBody actual expected \<longleftrightarrow>
     (\<forall>(key, ev) \<in> set expected.
        \<exists>av. map_of actual key = Some av \<and>
          (case ev of
             JObj em \<Rightarrow> (\<exists>am. av = JObj am \<and> matchesMockBody am em)
           | _ \<Rightarrow> DeepEqual av ev))"
proof (induction expected)
  case Nil
  show ?case by simp
next
  case (Cons kv rest)
  obtain key ev where kv: "kv = (key, ev)" by (cases kv)
  show ?case
  proof (cases "map_of actual key")
    case None
    then show ?thesis by (simp add: kv)
  next
    case (Some av)
    show ?thesis
      using Cons.IH Some
      by (cases ev; cases av) (simp_all add: kv del: DeepEqual.simps)
  qed
qed

theorem matchesMockBody_subset_witness:
  "matchesMockBody [(''a'', JNum 1), (''b'', JNum 2)] [(''a'', JNum 1)] \<and>
   \<not> matchesMockBody [(''b'', JNum 2)] [(''a'', JNum 1)] \<and>
   matchesMockBody [(''a'', JObj [(''x'', JNum 1), (''y'', JNum 2)])] [(''a'', JObj [(''x'', JNum 1)])]"
proof -
  have 1: "matchesMockBody [(''a'', JNum 1), (''b'', JNum 2)] [(''a'', JNum 1)]"
    by (subst matchesMockBody_subset) simp
  have 2: "\<not> matchesMockBody [(''b'', JNum 2)] [(''a'', JNum 1)]"
    by (subst matchesMockBody_subset) simp
  have 3: "matchesMockBody [(''x'', JNum 1), (''y'', JNum 2)] [(''x'', JNum 1)]"
    by (subst matchesMockBody_subset) simp
  have 4: "matchesMockBody [(''a'', JObj [(''x'', JNum 1), (''y'', JNum 2)])] [(''a'', JObj [(''x'', JNum 1)])]"
    by (subst matchesMockBody_subset) (simp add: 3)
  show ?thesis using 1 2 4 by blast
qed

text \<open>
  C3. A mock configured with method \<open>get\<close> and a request \<open>GET\<close> on the same path: the claim
  says they match. \<open>findMatchingMock\<close> compares the two methods with \<open>==\<close>, byte for byte,
  so the entry is passed over and nothing is found.
\<close>

theorem findMatchingMock_case_sensitive:
  "findMatchingMock unmarshal
     [\<lparr>Request = \<lparr>rq_Path = ''/api/users'', rq_Method = ''get'', rq_Body = None\<rparr>,
       Response = \<lparr>rs_Body = None, rs_StatusCode = 200, rs_Headers = []\<rparr>\<rparr>]
     \<lparr>req_Method = ''GET'', req_Path = ''/api/users'', req_Body = Bytes []\<rparr> = None"
  by simp


















section \<open>Properties of the file classification\<close>

lemma Split_not_Nil: "Split s sep \<noteq> []"
  by (induction s) (auto split: list.splits)

lemma Split_Cons_other:
  "c \<noteq> sep \<Longrightarrow> Split (c # cs) sep = (c # hd (Split cs sep)) # tl (Split cs sep)"
  using Split_not_Nil [of cs sep] by (cases "Split cs sep") auto

lemma Split_sep_free: "p \<in> set (Split s sep) \<Longrightarrow> sep \<notin> set p"
proof (induction s arbitrary: p)
  case Nil
  then show ?case by simp
next
  case (Cons c cs)
  show ?case
  proof (cases "c = sep")
    case True
    with Cons show ?thesis by auto
  next
    case False
    obtain q qs where q: "Split cs sep = q # qs"
      using Split_not_Nil [of cs sep] by (cases "Split cs sep") auto
    with Cons False show ?thesis by auto
  qed
qed

lemma Join_Cons: "ps \<noteq> [] \<Longrightarrow> Join (p # ps) sep = p @ sep # Join ps sep"
  by (cases ps) auto

lemma Join_Split: "Join (Split s sep) sep = s"
proof (induction s)
  case Nil
  show ?case by simp
next
  case (Cons c cs)
  obtain q qs where q: "Split cs sep = q # qs"
    using Split_not_Nil [of cs sep] by (cases "Split cs sep") auto
  show ?case
  proof (cases "c = sep")
    case True
    with Cons q show ?thesis by simp
  next
    case False
    with Cons q show ?thesis by (cases qs) auto
  qed
qed

lemma Split_no_sep: "sep \<notin> set s \<Longrightarrow> Split s sep = [s]"
  by (induction s) auto

lemma Split_append_sep:
  "sep \<notin> set a \<Longrightarrow> Split (a @ sep # b) sep = a # Split b sep"
  by (induction a) auto

lemma Split_Join:
  "ps \<noteq> [] \<Longrightarrow> \<forall>p \<in> set ps. sep \<notin> set p \<Longrightarrow> Split (Join ps sep) sep = ps"
proof (induction ps sep rule: Join.induct)
  case (1 sep)
  then show ?case by simp
next
  case (2 p sep)
  then show ?case by (simp add: Split_no_sep)
next
  case (3 p q ps sep)
  then show ?case by (simp add: Split_append_sep)
qed

lemma Join_snoc: "ps \<noteq> [] \<Longrightarrow> Join (ps @ [f]) sep = Join ps sep @ sep # f"
  by (induction ps sep rule: Join.induct) auto

lemma Split_snoc:
  "sep \<notin> set f \<Longrightarrow> Split (a @ sep # f) sep = Split a sep @ [f]"
proof (induction a)
  case Nil
  then show ?case by (simp add: Split_no_sep)
next
  case (Cons c cs)
  obtain q qs where q: "Split cs sep = q # qs"
    using Split_not_Nil [of cs sep] by (cases "Split cs sep") auto
  with Cons show ?case by auto
qed


lemma Split_one_iff: "Split p sep = [x] \<longleftrightarrow> p = x \<and> sep \<notin> set x"
proof
  assume a: "Split p sep = [x]"
  have "Join (Split p sep) sep = p" by (rule Join_Split)
  moreover have "sep \<notin> set x" using Split_sep_free [of x p sep] a by simp
  ultimately show "p = x \<and> sep \<notin> set x" using a by simp
next
  assume "p = x \<and> sep \<notin> set x"
  then show "Split p sep = [x]" by (simp add: Split_no_sep)
qed

lemma Split_two_iff:
  "Split p sep = [x, y] \<longleftrightarrow> p = x @ sep # y \<and> sep \<notin> set x \<and> sep \<notin> set y"
proof
  assume a: "Split p sep = [x, y]"
  have "Join (Split p sep) sep = p" by (rule Join_Split)
  moreover have "sep \<notin> set x" "sep \<notin> set y"
    using Split_sep_free [of x p sep] Split_sep_free [of y p sep] a by simp_all
  ultimately show "p = x @ sep # y \<and> sep \<notin> set x \<and> sep \<notin> set y" using a by simp
next
  assume "p = x @ sep # y \<and> sep \<notin> set x \<and> sep \<notin> set y"
  then show "Split p sep = [x, y]" by (simp add: Split_append_sep Split_no_sep)
qed

lemma Split_deep_iff:
  "(\<exists>ms. ms \<noteq> [] \<and> Split p sep = x # y # ms @ [f]) \<longleftrightarrow>
   (\<exists>mid. p = x @ sep # y @ sep # mid @ sep # f) \<and> sep \<notin> set x \<and> sep \<notin> set y \<and> sep \<notin> set f"
proof
  assume "\<exists>ms. ms \<noteq> [] \<and> Split p sep = x # y # ms @ [f]"
  then obtain ms where ms: "ms \<noteq> []" and a: "Split p sep = x # y # ms @ [f]" by blast
  have j: "Join (Split p sep) sep = p" by (rule Join_Split)
  have free: "sep \<notin> set x" "sep \<notin> set y" "sep \<notin> set f"
    using Split_sep_free [of x p sep] Split_sep_free [of y p sep] Split_sep_free [of f p sep] a
    by simp_all
  have "Join (x # y # ms @ [f]) sep = x @ sep # y @ sep # Join ms sep @ sep # f"
    using ms by (simp add: Join_Cons Join_snoc)
  with j a have "p = x @ sep # y @ sep # Join ms sep @ sep # f" by simp
  with free show "(\<exists>mid. p = x @ sep # y @ sep # mid @ sep # f) \<and> sep \<notin> set x \<and>
      sep \<notin> set y \<and> sep \<notin> set f"
    by blast
next
  assume a: "(\<exists>mid. p = x @ sep # y @ sep # mid @ sep # f) \<and> sep \<notin> set x \<and>
      sep \<notin> set y \<and> sep \<notin> set f"
  then obtain mid where p: "p = x @ sep # y @ sep # mid @ sep # f" by blast
  have "Split p sep = x # y # Split mid sep @ [f]"
    using a unfolding p by (simp add: Split_append_sep Split_snoc)
  then show "\<exists>ms. ms \<noteq> [] \<and> Split p sep = x # y # ms @ [f]"
    using Split_not_Nil [of mid sep] by blast
qed

lemma classify_global_parts:
  "classifyConfigFile p = ('''', ''global'') \<longleftrightarrow>
     Split p Separator = [''config.yaml''] \<or> Split p Separator = [''config.yml'']"
proof (cases "Split p Separator")
  case Nil
  then show ?thesis using Split_not_Nil [of p Separator] by simp
next
  case (Cons x xs)
  then show ?thesis
    by (cases xs) (auto simp: classifyConfigFile_def Let_def)
qed

lemma classify_service_parts:
  "classifyConfigFile p = (svc, ''service'') \<longleftrightarrow>
     Split p Separator = [svc, ''config.yaml''] \<or> Split p Separator = [svc, ''config.yml'']"
proof (cases "Split p Separator")
  case Nil
  then show ?thesis using Split_not_Nil [of p Separator] by simp
next
  case (Cons x xs)
  show ?thesis
  proof (cases xs)
    case Nil
    with Cons show ?thesis by (auto simp: classifyConfigFile_def Let_def)
  next
    case (Cons y ys)
    with \<open>Split p Separator = x # xs\<close> show ?thesis
      by (cases ys) (auto simp: classifyConfigFile_def Let_def)
  qed
qed


lemma classify_mock_parts:
  "classifyConfigFile p = (svc, ''mock'') \<longleftrightarrow>
     (\<exists>ms f. ms \<noteq> [] \<and> Split p Separator = svc # ''usecases'' # ms @ [f] \<and> suffix ''.json'' f)"
proof
  assume a: "classifyConfigFile p = (svc, ''mock'')"
  let ?parts = "Split p Separator"
  have len: "length ?parts \<ge> 4" and svc: "?parts ! 0 = svc" and uc: "?parts ! 1 = ''usecases''"
    and suf: "suffix ''.json'' (?parts ! (length ?parts - 1))"
    using a by (auto simp: classifyConfigFile_def Let_def split: if_splits)
  from len obtain x y tl where parts: "?parts = x # y # tl" and tl: "length tl \<ge> 2"
    by (cases ?parts; cases "tl ?parts") auto
  from tl have tlne: "tl \<noteq> []" by auto
  then have tl_eq: "tl = butlast tl @ [last tl]" by simp
  have bl: "butlast tl \<noteq> []" using tl by (cases tl; cases "List.tl tl") auto
  have lastp: "?parts ! (length ?parts - 1) = last tl"
    using parts tlne by (simp add: last_conv_nth)
  have "?parts = svc # ''usecases'' # butlast tl @ [last tl]"
    using parts svc uc tl_eq by simp
  with bl suf lastp show "\<exists>ms f. ms \<noteq> [] \<and> ?parts = svc # ''usecases'' # ms @ [f] \<and> suffix ''.json'' f"
    by metis
next
  assume "\<exists>ms f. ms \<noteq> [] \<and> Split p Separator = svc # ''usecases'' # ms @ [f] \<and> suffix ''.json'' f"
  then obtain ms f where ms: "ms \<noteq> []" and parts: "Split p Separator = svc # ''usecases'' # ms @ [f]"
    and suf: "suffix ''.json'' f" by blast
  have len: "length (Split p Separator) = 3 + length ms" using parts by simp
  have lms: "length ms \<ge> 1" using ms by (cases ms) auto
  have lastp: "Split p Separator ! (length (Split p Separator) - 1) = f"
    unfolding parts by (simp add: nth_append)
  show "classifyConfigFile p = (svc, ''mock'')"
    unfolding classifyConfigFile_def Let_def lastp
    using len lms suf by (simp add: parts)
qed



lemma classify_global_iff:
  "classifyConfigFile p = ('''', ''global'') \<longleftrightarrow> p = ''config.yaml'' \<or> p = ''config.yml''"
  unfolding classify_global_parts Split_one_iff by (auto simp: Separator_def)

lemma classify_service_iff:
  "classifyConfigFile p = (svc, ''service'') \<longleftrightarrow>
      CHR ''/'' \<notin> set svc \<and> (p = svc @ ''/config.yaml'' \<or> p = svc @ ''/config.yml'')"
  unfolding classify_service_parts Split_two_iff by (auto simp: Separator_def)

lemma classify_mock_iff:
  "classifyConfigFile p = (svc, ''mock'') \<longleftrightarrow>
      CHR ''/'' \<notin> set svc \<and>
      (\<exists>mid file. CHR ''/'' \<notin> set file \<and> suffix ''.json'' file \<and>
         p = svc @ ''/usecases/'' @ mid @ ''/'' @ file)"
proof -
  have "(\<exists>ms f. ms \<noteq> [] \<and> Split p Separator = svc # ''usecases'' # ms @ [f] \<and> suffix ''.json'' f) \<longleftrightarrow>
        (\<exists>f. suffix ''.json'' f \<and> (\<exists>ms. ms \<noteq> [] \<and> Split p Separator = svc # ''usecases'' # ms @ [f]))"
    by blast
  also have "\<dots> \<longleftrightarrow> (\<exists>f. suffix ''.json'' f \<and>
        ((\<exists>mid. p = svc @ Separator # ''usecases'' @ Separator # mid @ Separator # f) \<and>
          Separator \<notin> set svc \<and> Separator \<notin> set ''usecases'' \<and> Separator \<notin> set f))"
    unfolding Split_deep_iff ..
  also have "\<dots> \<longleftrightarrow> CHR ''/'' \<notin> set svc \<and>
      (\<exists>mid file. CHR ''/'' \<notin> set file \<and> suffix ''.json'' file \<and>
         p = svc @ ''/usecases/'' @ mid @ ''/'' @ file)"
    by (auto simp: Separator_def)
  finally show ?thesis
    unfolding classify_mock_parts .
qed

lemma classify_types:
  "snd (classifyConfigFile p) = ''global'' \<and> fst (classifyConfigFile p) = '''' \<or>
   snd (classifyConfigFile p) = ''service'' \<or> snd (classifyConfigFile p) = ''mock'' \<or>
   snd (classifyConfigFile p) = ''unknown''"
  by (simp add: classifyConfigFile_def Let_def)

text \<open>
  C9, as the code has it. A path relative to the root is classified \<open>global\<close> exactly when
  it is \<open>config.yaml\<close> or \<open>config.yml\<close>; \<open>service\<close> with service id \<open>svc\<close> exactly when it
  is \<open>svc/config.yaml\<close> or \<open>svc/config.yml\<close>; \<open>mock\<close> with service id \<open>svc\<close> exactly when
  it is \<open>svc/usecases/mid/file\<close> where \<open>file\<close> ends in \<open>.json\<close> and \<open>mid\<close> is any text, one
  directory or several; and \<open>unknown\<close> exactly for the paths of none of these shapes.
  (\<open>svc\<close> and \<open>file\<close> are single path components: they hold no separator.)
\<close>

theorem classifyConfigFile_shapes:
  "(classifyConfigFile p = ('''', ''global'') \<longleftrightarrow> p = ''config.yaml'' \<or> p = ''config.yml'') \<and>
   (classifyConfigFile p = (svc, ''service'') \<longleftrightarrow>
      CHR ''/'' \<notin> set svc \<and> (p = svc @ ''/config.yaml'' \<or> p = svc @ ''/config.yml'')) \<and>
   (classifyConfigFile p = (svc, ''mock'') \<longleftrightarrow>
      CHR ''/'' \<notin> set svc \<and>
      (\<exists>mid file. CHR ''/'' \<notin> set file \<and> suffix ''.json'' file \<and>
         p = svc @ ''/usecases/'' @ mid @ ''/'' @ file)) \<and>
   (snd (classifyConfigFile p) = ''unknown'' \<longleftrightarrow>
      \<not> (p = ''config.yaml'' \<or> p = ''config.yml'') \<and>
      \<not> (\<exists>s. CHR ''/'' \<notin> set s \<and> (p = s @ ''/config.yaml'' \<or> p = s @ ''/config.yml'')) \<and>
      \<not> (\<exists>s mid file. CHR ''/'' \<notin> set s \<and> CHR ''/'' \<notin> set file \<and> suffix ''.json'' file \<and>
            p = s @ ''/usecases/'' @ mid @ ''/'' @ file))"
proof (intro conjI)
  show "classifyConfigFile p = ('''', ''global'') \<longleftrightarrow> p = ''config.yaml'' \<or> p = ''config.yml''"
    by (rule classify_global_iff)
  show "classifyConfigFile p = (svc, ''service'') \<longleftrightarrow>
      CHR ''/'' \<notin> set svc \<and> (p = svc @ ''/config.yaml'' \<or> p = svc @ ''/config.yml'')"
    by (rule classify_service_iff)
  show "classifyConfigFile p = (svc, ''mock'') \<longleftrightarrow>
      CHR ''/'' \<notin> set svc \<and>
      (\<exists>mid file. CHR ''/'' \<notin> set file \<and> suffix ''.json'' file \<and>
         p = svc @ ''/usecases/'' @ mid @ ''/'' @ file)"
    by (rule classify_mock_iff)
  let ?c = "classifyConfigFile p"
  have g: "snd ?c = ''global'' \<longleftrightarrow> p = ''config.yaml'' \<or> p = ''config.yml''"
  proof -
    have "snd ?c = ''global'' \<longleftrightarrow> ?c = ('''', ''global'')"
      using classify_types [of p] by (cases ?c) auto
    then show ?thesis by (simp add: classify_global_iff)
  qed
  have s: "snd ?c = ''service'' \<longleftrightarrow>
      (\<exists>s. CHR ''/'' \<notin> set s \<and> (p = s @ ''/config.yaml'' \<or> p = s @ ''/config.yml''))"
  proof -
    have "snd ?c = ''service'' \<longleftrightarrow> (\<exists>s. ?c = (s, ''service''))"
      by (cases ?c) auto
    then show ?thesis by (simp add: classify_service_iff)
  qed
  have m: "snd ?c = ''mock'' \<longleftrightarrow>
      (\<exists>s mid file. CHR ''/'' \<notin> set s \<and> CHR ''/'' \<notin> set file \<and> suffix ''.json'' file \<and>
            p = s @ ''/usecases/'' @ mid @ ''/'' @ file)"
  proof -
    have "snd ?c = ''mock'' \<longleftrightarrow> (\<exists>s. ?c = (s, ''mock''))"
      by (cases ?c) auto
    then show ?thesis unfolding classify_mock_iff by blast
  qed
  have "snd ?c = ''unknown'' \<longleftrightarrow>
      snd ?c \<noteq> ''global'' \<and> snd ?c \<noteq> ''service'' \<and> snd ?c \<noteq> ''mock''"
    using classify_types [of p] by auto
  then show "snd ?c = ''unknown'' \<longleftrightarrow>
      \<not> (p = ''config.yaml'' \<or> p = ''config.yml'') \<and>
      \<not> (\<exists>s. CHR ''/'' \<notin> set s \<and> (p = s @ ''/config.yaml'' \<or> p = s @ ''/config.yml'')) \<and>
      \<not> (\<exists>s mid file. CHR ''/'' \<notin> set s \<and> CHR ''/'' \<notin> set file \<and> suffix ''.json'' file \<and>
            p = s @ ''/usecases/'' @ mid @ ''/'' @ file)"
    unfolding g s m .
qed

text \<open>
  The claim as stated gives \<open>mock\<close> only to \<open><service>/usecases/<usecase>/*.json\<close>, four
  components. A JSON file one directory deeper has five and is classified \<open>mock\<close> all the
  same: the test is \<open>len(parts) >= 4\<close>.
\<close>

theorem classifyConfigFile_deep_mock:
  "classifyConfigFile ''svc/usecases/uc/deep/x.json'' = (''svc'', ''mock'') \<and>
   Split ''svc/usecases/uc/deep/x.json'' Separator = [''svc'', ''usecases'', ''uc'', ''deep'', ''x.json'']"
  by (simp add: classifyConfigFile_def Separator_def suffix_def)


section \<open>Properties of the server manager\<close>

lemma removeFromServers_filter:
  "distinct (map ServiceName xs) \<Longrightarrow>
     removeFromServers name xs = filter (\<lambda>s. ServiceName s \<noteq> name) xs"
proof (induction xs)
  case Nil
  show ?case by simp
next
  case (Cons s rest)
  show ?case
  proof (cases "ServiceName s = name")
    case True
    have "\<forall>x \<in> set rest. ServiceName x \<noteq> name"
    proof
      fix x assume "x \<in> set rest"
      then have "ServiceName x \<in> set (map ServiceName rest)" by simp
      with Cons.prems True show "ServiceName x \<noteq> name" by auto
    qed
    then have "filter (\<lambda>s. ServiceName s \<noteq> name) rest = rest" by (simp add: filter_id_conv)
    with True show ?thesis by simp
  next
    case False
    with Cons show ?thesis by simp
  qed
qed

lemma namesConsistent_iff:
  "namesConsistent m \<longleftrightarrow>
     distinct (map ServiceName (Servers m)) \<and> distinct (map fst (serviceMap m)) \<and>
     (\<forall>name s. map_of (serviceMap m) name = Some s \<longleftrightarrow> s \<in> set (Servers m) \<and> ServiceName s = name)"
proof (cases "distinct (map fst (serviceMap m))")
  case False
  then show ?thesis by (simp add: namesConsistent_def)
next
  case True
  then have mo: "\<And>name s. map_of (serviceMap m) name = Some s \<longleftrightarrow> (name, s) \<in> set (serviceMap m)"
    by simp
  have "set (serviceMap m) = set (map (\<lambda>s. (ServiceName s, s)) (Servers m)) \<longleftrightarrow>
        (\<forall>name s. (name, s) \<in> set (serviceMap m) \<longleftrightarrow> s \<in> set (Servers m) \<and> ServiceName s = name)"
    by auto
  then show ?thesis using True by (simp add: namesConsistent_def mo)
qed

lemma portEntries_iff:
  "portEntries m \<longleftrightarrow>
     distinct (map fst (portMap m)) \<and>
     (\<forall>p b. map_of (portMap m) p = Some b \<longleftrightarrow> b \<and> (\<exists>s \<in> set (Servers m). Port s = p))"
proof (cases "distinct (map fst (portMap m))")
  case False
  then show ?thesis by (simp add: portEntries_def)
next
  case True
  then have mo: "\<And>p b. map_of (portMap m) p = Some b \<longleftrightarrow> (p, b) \<in> set (portMap m)"
    by simp
  have "set (portMap m) = set (map (\<lambda>s. (Port s, True)) (Servers m)) \<longleftrightarrow>
        (\<forall>p b. (p, b) \<in> set (portMap m) \<longleftrightarrow> b \<and> (\<exists>s \<in> set (Servers m). Port s = p))"
    by auto
  then show ?thesis using True by (simp add: portEntries_def mo)
qed


lemma isPortInUse_iff:
  assumes "set (mapOrder env (map fst (serviceMap m))) = set (map fst (serviceMap m))"
  shows "snd (isPortInUse env m port serviceName) \<longleftrightarrow>
           (\<exists>name server. map_of (serviceMap m) name = Some server \<and> Port server = port \<and>
              name \<noteq> serviceName)"
proof -
  let ?P = "\<lambda>name. case map_of (serviceMap m) name of
                          None \<Rightarrow> False
                        | Some server \<Rightarrow> Port server = port \<and> name \<noteq> serviceName"
  have "snd (isPortInUse env m port serviceName) \<longleftrightarrow>
          find ?P (mapOrder env (map fst (serviceMap m))) \<noteq> None"
    by (simp add: isPortInUse_def split: option.splits)
  also have "\<dots> \<longleftrightarrow> (\<exists>name \<in> set (map fst (serviceMap m)). ?P name)"
    using assms by (simp add: find_None_iff)
  also have "\<dots> \<longleftrightarrow> (\<exists>name server. map_of (serviceMap m) name = Some server \<and> Port server = port \<and>
              name \<noteq> serviceName)"
  proof
    assume "\<exists>name \<in> set (map fst (serviceMap m)). ?P name"
    then show "\<exists>name server. map_of (serviceMap m) name = Some server \<and> Port server = port \<and>
              name \<noteq> serviceName"
      by (auto split: option.splits)
  next
    assume "\<exists>name server. map_of (serviceMap m) name = Some server \<and> Port server = port \<and>
              name \<noteq> serviceName"
    then obtain name server where a: "map_of (serviceMap m) name = Some server"
      "Port server = port" "name \<noteq> serviceName" by blast
    then have "name \<in> set (map fst (serviceMap m))"
      by (metis map_of_SomeD image_eqI fst_conv set_map)
    moreover have "?P name" using a by simp
    ultimately show "\<exists>name \<in> set (map fst (serviceMap m)). ?P name" by (rule bexI [rotated])
  qed
  finally show ?thesis .
qed

lemma isPortInUse_serviceMap:
  "serviceMap m1 = serviceMap m \<Longrightarrow> isPortInUse env m1 port name = isPortInUse env m port name"
  by (simp add: isPortInUse_def)

lemma AddServer_serviceMap:
  "serviceMap (AddServer env server m) = AList.update (ServiceName server) server (serviceMap m)"
  by (simp add: AddServer_def Let_def split: option.splits prod.splits)

lemma AddServer_ConfigRoot: "ConfigRoot (AddServer env server m) = ConfigRoot m"
  by (simp add: AddServer_def Let_def split: option.splits prod.splits)

lemma AddServer_effects:
  "effects (AddServer env server m) =
     effects m @
       (if snd (isPortInUse env m (Port server) (ServiceName server))
        then [PortInUseWarning (Port server) (fst (isPortInUse env m (Port server) (ServiceName server)))]
        else [])"
proof -
  have eq: "\<And>upd. isPortInUse env (m\<lparr>Servers := upd, portMap := pm\<rparr>) (Port server) (ServiceName server)
              = isPortInUse env m (Port server) (ServiceName server)" for pm
    by (simp add: isPortInUse_def)
  show ?thesis
    by (cases "isPortInUse env m (Port server) (ServiceName server)")
       (simp add: AddServer_def Let_def eq split: option.splits)
qed

lemma AddServer_Servers:
  assumes "namesConsistent m"
  shows "Servers (AddServer env server m) =
           filter (\<lambda>s. ServiceName s \<noteq> ServiceName server) (Servers m) @ [server]"
proof (cases "map_of (serviceMap m) (ServiceName server)")
  case None
  have "\<forall>s \<in> set (Servers m). ServiceName s \<noteq> ServiceName server"
    using assms None unfolding namesConsistent_iff by (metis option.distinct(1))
  then have "filter (\<lambda>s. ServiceName s \<noteq> ServiceName server) (Servers m) = Servers m"
    by (simp add: filter_id_conv)
  with None show ?thesis
    by (simp add: AddServer_def Let_def split: prod.splits)
next
  case (Some existing)
  have "distinct (map ServiceName (Servers m))" using assms by (simp add: namesConsistent_def)
  then have "removeFromServers (ServiceName server) (Servers m) =
      filter (\<lambda>s. ServiceName s \<noteq> ServiceName server) (Servers m)"
    by (rule removeFromServers_filter)
  with Some show ?thesis
    by (simp add: AddServer_def Let_def split: prod.splits)
qed

lemma AddServer_portMap:
  "portMap (AddServer env server m) =
     AList.update (Port server) True
       (case map_of (serviceMap m) (ServiceName server) of
          None \<Rightarrow> portMap m
        | Some existing \<Rightarrow> AList.delete (Port existing) (portMap m))"
  by (simp add: AddServer_def Let_def split: option.splits prod.splits)

lemma AddServer_namesConsistent:
  assumes nc: "namesConsistent m"
  shows "namesConsistent (AddServer env server m)"
proof -
  let ?n = "ServiceName server"
  let ?m' = "AddServer env server m"
  from nc have d1: "distinct (map ServiceName (Servers m))"
    and d2: "distinct (map fst (serviceMap m))"
    and mo: "\<And>name s. map_of (serviceMap m) name = Some s \<longleftrightarrow> s \<in> set (Servers m) \<and> ServiceName s = name"
    unfolding namesConsistent_iff by blast+
  have S: "Servers ?m' = filter (\<lambda>s. ServiceName s \<noteq> ?n) (Servers m) @ [server]"
    using nc by (rule AddServer_Servers)
  have "distinct (map ServiceName (filter (\<lambda>s. ServiceName s \<noteq> ?n) (Servers m)))"
    using d1 by (rule distinct_map_filter)
  then have D1: "distinct (map ServiceName (Servers ?m'))"
    unfolding S by auto
  have D2: "distinct (map fst (serviceMap ?m'))"
    unfolding AddServer_serviceMap using d2 by (rule distinct_update)
  have MO: "map_of (serviceMap ?m') name = Some s \<longleftrightarrow> s \<in> set (Servers ?m') \<and> ServiceName s = name"
    for name s
    unfolding AddServer_serviceMap update_conv' S using mo [of name s] by auto
  show ?thesis
    unfolding namesConsistent_iff using D1 D2 MO by blast
qed


lemma filter_other_names:
  assumes "distinct (map ServiceName xs)" and "e \<in> set xs"
  shows "s \<in> set (filter (\<lambda>x. ServiceName x \<noteq> ServiceName e) xs) \<longleftrightarrow> s \<in> set xs \<and> s \<noteq> e"
proof -
  have "inj_on ServiceName (set xs)" using assms(1) by (simp add: distinct_map)
  then have "ServiceName s = ServiceName e \<longleftrightarrow> s = e" if "s \<in> set xs"
    using that assms(2) by (auto simp: inj_on_def)
  then show ?thesis by auto
qed

lemma AddServer_ports:
  assumes nc: "namesConsistent m" and pe: "portEntries m"
    and dp: "distinct (map Port (Servers m))"
    and ord: "set (mapOrder env (map fst (serviceMap m))) = set (map fst (serviceMap m))"
    and free: "\<not> snd (isPortInUse env m (Port server) (ServiceName server))"
  shows "portEntries (AddServer env server m) \<and> distinct (map Port (Servers (AddServer env server m)))"
proof -
  let ?n = "ServiceName server"
  let ?m' = "AddServer env server m"
  let ?keep = "filter (\<lambda>s. ServiceName s \<noteq> ?n) (Servers m)"
  from nc have d1: "distinct (map ServiceName (Servers m))"
    and mo: "\<And>name s. map_of (serviceMap m) name = Some s \<longleftrightarrow> s \<in> set (Servers m) \<and> ServiceName s = name"
    unfolding namesConsistent_iff by blast+
  from pe have dk: "distinct (map fst (portMap m))"
    and po: "\<And>p b. map_of (portMap m) p = Some b \<longleftrightarrow> b \<and> (\<exists>s \<in> set (Servers m). Port s = p)"
    unfolding portEntries_iff by blast+
  have injN: "inj_on ServiceName (set (Servers m))" using d1 by (simp add: distinct_map)
  have injP: "inj_on Port (set (Servers m))" using dp by (simp add: distinct_map)
  have S: "Servers ?m' = ?keep @ [server]"
    using nc by (rule AddServer_Servers)
  have others: "Port s \<noteq> Port server" if "s \<in> set ?keep" for s
  proof
    assume "Port s = Port server"
    moreover from that have "map_of (serviceMap m) (ServiceName s) = Some s" "ServiceName s \<noteq> ?n"
      using mo by auto
    ultimately have "snd (isPortInUse env m (Port server) ?n)"
      unfolding isPortInUse_iff [OF ord] by blast
    with free show False by simp
  qed
  have "distinct (map Port ?keep)" using dp by (rule distinct_map_filter)
  moreover have "Port server \<notin> Port ` set ?keep" using others by force
  ultimately have DP: "distinct (map Port (Servers ?m'))"
    unfolding S by simp
  let ?base = "case map_of (serviceMap m) ?n of
          None \<Rightarrow> portMap m
        | Some existing \<Rightarrow> AList.delete (Port existing) (portMap m)"
  have P: "portMap ?m' = AList.update (Port server) True ?base"
    by (rule AddServer_portMap)
  have dbase: "distinct (map fst ?base)"
    using dk by (auto split: option.splits intro: distinct_delete)
  have DK: "distinct (map fst (portMap ?m'))"
    unfolding P using dbase by (rule distinct_update)
  have base: "map_of ?base p = Some b \<longleftrightarrow> b \<and> (\<exists>s \<in> set ?keep. Port s = p)" for p b
  proof (cases "map_of (serviceMap m) ?n")
    case None
    then have "\<forall>s \<in> set (Servers m). ServiceName s \<noteq> ?n"
      using mo by (metis option.distinct(1))
    then have "?keep = Servers m" by (simp add: filter_id_conv)
    with None po [of p b] show ?thesis by simp
  next
    case (Some e)
    then have e: "e \<in> set (Servers m)" "ServiceName e = ?n" using mo by auto
    have keep: "s \<in> set ?keep \<longleftrightarrow> s \<in> set (Servers m) \<and> s \<noteq> e" for s
      using filter_other_names [OF d1 e(1), of s] e(2) by simp
    have "(\<exists>s \<in> set ?keep. Port s = p) \<longleftrightarrow> (\<exists>s. (s \<in> set (Servers m) \<and> s \<noteq> e) \<and> Port s = p)"
      unfolding keep [symmetric] by blast
    also have "\<dots> \<longleftrightarrow> p \<noteq> Port e \<and> (\<exists>s \<in> set (Servers m). Port s = p)"
      using e(1) injP by (auto dest: inj_onD)
    finally have "(\<exists>s \<in> set ?keep. Port s = p) \<longleftrightarrow> p \<noteq> Port e \<and> (\<exists>s \<in> set (Servers m). Port s = p)" .
    with Some po [of p b] show ?thesis
      by (auto simp: delete_conv')
  qed
  have PO: "map_of (portMap ?m') p = Some b \<longleftrightarrow> b \<and> (\<exists>s \<in> set (Servers ?m'). Port s = p)" for p b
    unfolding P update_conv' S using base [of p b] by auto
  show ?thesis
    unfolding portEntries_iff using DK PO DP by blast
qed

lemma stopRemoved_None: "GetServerByService m name = None \<Longrightarrow> stopRemoved name m = m"
  by (simp add: stopRemoved_def)

lemma stopRemoved_namesConsistent:
  assumes nc: "namesConsistent m"
  shows "namesConsistent (stopRemoved name m)"
proof (cases "GetServerByService m name")
  case None
  with nc show ?thesis by (simp add: stopRemoved_None)
next
  case (Some server)
  let ?m' = "stopRemoved name m"
  from nc have d1: "distinct (map ServiceName (Servers m))"
    and d2: "distinct (map fst (serviceMap m))"
    and mo: "\<And>n s. map_of (serviceMap m) n = Some s \<longleftrightarrow> s \<in> set (Servers m) \<and> ServiceName s = n"
    unfolding namesConsistent_iff by blast+
  have rm: "removeFromServers name (Servers m) = filter (\<lambda>s. ServiceName s \<noteq> name) (Servers m)"
    using d1 by (rule removeFromServers_filter)
  have S: "Servers ?m' = filter (\<lambda>s. ServiceName s \<noteq> name) (Servers m)"
    and M: "serviceMap ?m' = AList.delete name (serviceMap m)"
    using Some by (simp_all add: stopRemoved_def rm)
  have D1: "distinct (map ServiceName (Servers ?m'))"
    unfolding S using d1 by (rule distinct_map_filter)
  have D2: "distinct (map fst (serviceMap ?m'))"
    unfolding M using d2 by (rule distinct_delete)
  have MO: "map_of (serviceMap ?m') n = Some s \<longleftrightarrow> s \<in> set (Servers ?m') \<and> ServiceName s = n" for n s
    unfolding M S delete_conv' using mo [of n s] by auto
  show ?thesis
    unfolding namesConsistent_iff using D1 D2 MO by blast
qed

lemma stopRemoved_ports:
  assumes nc: "namesConsistent m" and pe: "portEntries m"
    and dp: "distinct (map Port (Servers m))"
  shows "portEntries (stopRemoved name m) \<and> distinct (map Port (Servers (stopRemoved name m)))"
proof (cases "GetServerByService m name")
  case None
  with pe dp show ?thesis by (simp add: stopRemoved_None)
next
  case (Some e)
  let ?m' = "stopRemoved name m"
  let ?keep = "filter (\<lambda>s. ServiceName s \<noteq> name) (Servers m)"
  from nc have d1: "distinct (map ServiceName (Servers m))"
    and mo: "\<And>n s. map_of (serviceMap m) n = Some s \<longleftrightarrow> s \<in> set (Servers m) \<and> ServiceName s = n"
    unfolding namesConsistent_iff by blast+
  from pe have dk: "distinct (map fst (portMap m))"
    and po: "\<And>p b. map_of (portMap m) p = Some b \<longleftrightarrow> b \<and> (\<exists>s \<in> set (Servers m). Port s = p)"
    unfolding portEntries_iff by blast+
  have injN: "inj_on ServiceName (set (Servers m))" using d1 by (simp add: distinct_map)
  have injP: "inj_on Port (set (Servers m))" using dp by (simp add: distinct_map)
  have rm: "removeFromServers name (Servers m) = ?keep"
    using d1 by (rule removeFromServers_filter)
  have S: "Servers ?m' = ?keep" and P: "portMap ?m' = AList.delete (Port e) (portMap m)"
    using Some by (simp_all add: stopRemoved_def rm)
  from Some have e: "e \<in> set (Servers m)" "ServiceName e = name"
    using mo by (auto simp: GetServerByService_def)
  have keep: "s \<in> set ?keep \<longleftrightarrow> s \<in> set (Servers m) \<and> s \<noteq> e" for s
    using filter_other_names [OF d1 e(1), of s] e(2) by simp
  have ex: "(\<exists>s \<in> set ?keep. Port s = p) \<longleftrightarrow> p \<noteq> Port e \<and> (\<exists>s \<in> set (Servers m). Port s = p)" for p
  proof -
    have "(\<exists>s \<in> set ?keep. Port s = p) \<longleftrightarrow> (\<exists>s. (s \<in> set (Servers m) \<and> s \<noteq> e) \<and> Port s = p)"
      unfolding keep [symmetric] by blast
    also have "\<dots> \<longleftrightarrow> p \<noteq> Port e \<and> (\<exists>s \<in> set (Servers m). Port s = p)"
      using e(1) injP by (auto dest: inj_onD)
    finally show ?thesis .
  qed
  have DP: "distinct (map Port (Servers ?m'))"
    unfolding S using dp by (rule distinct_map_filter)
  have DK: "distinct (map fst (portMap ?m'))"
    unfolding P using dk by (rule distinct_delete)
  have PO: "map_of (portMap ?m') p = Some b \<longleftrightarrow> b \<and> (\<exists>s \<in> set (Servers ?m'). Port s = p)" for p b
    unfolding P S ex delete_conv' using po [of p b] by auto
  show ?thesis
    unfolding portEntries_iff using DK PO DP by blast
qed


lemma namesConsistent_effects [simp]:
  "namesConsistent (m\<lparr>effects := es\<rparr>) = namesConsistent m"
  by (simp add: namesConsistent_def)

lemma portEntries_effects [simp]:
  "portEntries (m\<lparr>effects := es\<rparr>) = portEntries m"
  by (simp add: portEntries_def)

lemma fleetInvariant_quiet_effects:
  assumes "fleetInvariant m" and "filter isWarning es = []"
  shows "fleetInvariant (m\<lparr>effects := effects m @ es\<rparr>)"
  using assms by (simp add: fleetInvariant_def warnings_def)

lemma AddServer_fleetInvariant:
  assumes inv: "fleetInvariant m" and ord: "fairOrder env"
  shows "fleetInvariant (AddServer env server m)"
proof -
  let ?m' = "AddServer env server m"
  from inv have nc: "namesConsistent m" by (simp add: fleetInvariant_def)
  have NC: "namesConsistent ?m'" using nc by (rule AddServer_namesConsistent)
  have o: "set (mapOrder env (map fst (serviceMap m))) = set (map fst (serviceMap m))"
    using ord by (simp add: fairOrder_def)
  have "portEntries ?m' \<and> distinct (map Port (Servers ?m'))" if w: "warnings ?m' = []"
  proof -
    from w have w0: "warnings m = []"
      and free: "\<not> snd (isPortInUse env m (Port server) (ServiceName server))"
      by (auto simp: warnings_def AddServer_effects split: if_splits)
    from inv w0 have "portEntries m" "distinct (map Port (Servers m))"
      by (simp_all add: fleetInvariant_def)
    with nc o free show ?thesis by (intro AddServer_ports)
  qed
  with NC show ?thesis by (simp add: fleetInvariant_def)
qed

lemma stopRemoved_effects:
  "effects (stopRemoved name m) =
     effects m @ (case GetServerByService m name of None \<Rightarrow> [] | Some server \<Rightarrow> [Stop server])"
  by (simp add: stopRemoved_def split: option.splits)

lemma stopRemoved_fleetInvariant:
  assumes inv: "fleetInvariant m"
  shows "fleetInvariant (stopRemoved name m)"
proof -
  let ?m' = "stopRemoved name m"
  from inv have nc: "namesConsistent m" by (simp add: fleetInvariant_def)
  have NC: "namesConsistent ?m'" using nc by (rule stopRemoved_namesConsistent)
  have "portEntries ?m' \<and> distinct (map Port (Servers ?m'))" if w: "warnings ?m' = []"
  proof -
    from w have w0: "warnings m = []"
      by (auto simp: warnings_def stopRemoved_effects)
    from inv w0 have "portEntries m" "distinct (map Port (Servers m))"
      by (simp_all add: fleetInvariant_def)
    with nc show ?thesis by (intro stopRemoved_ports)
  qed
  with NC show ?thesis by (simp add: fleetInvariant_def)
qed

lemma ReloadService_fail:
  assumes "reloadOutcome env (ConfigRoot m) serviceName usecase = Inl err"
  shows "ReloadService env serviceName usecase m = (Some err, m)"
  using assms
  by (auto simp: reloadOutcome_def ReloadService_def Let_def split: sum.splits if_splits)

lemma ReloadService_ok:
  assumes "reloadOutcome env (ConfigRoot m) serviceName usecase = Inr server"
  shows "ReloadService env serviceName usecase m =
           (None,
            (AddServer env server
               (m\<lparr>effects := effects m @
                    (case GetServerByService m serviceName of
                       None \<Rightarrow> []
                     | Some existingServer \<Rightarrow> [Stop existingServer])\<rparr>))
            \<lparr>effects :=
                effects (AddServer env server
                  (m\<lparr>effects := effects m @
                    (case GetServerByService m serviceName of
                       None \<Rightarrow> []
                     | Some existingServer \<Rightarrow> [Stop existingServer])\<rparr>)) @ [Start server]\<rparr>)"
  using assms
  by (auto simp: reloadOutcome_def ReloadService_def Let_def split: sum.splits if_splits option.splits)


lemma ReloadService_fleetInvariant:
  assumes inv: "fleetInvariant m" and ord: "fairOrder env"
  shows "fleetInvariant (snd (ReloadService env serviceName usecase m))"
proof (cases "reloadOutcome env (ConfigRoot m) serviceName usecase")
  case (Inl err)
  with inv show ?thesis by (simp add: ReloadService_fail)
next
  case (Inr server)
  let ?stops = "case GetServerByService m serviceName of
                       None \<Rightarrow> []
                     | Some existingServer \<Rightarrow> [Stop existingServer]"
  let ?m1 = "m\<lparr>effects := effects m @ ?stops\<rparr>"
  let ?m2 = "AddServer env server ?m1"
  have q: "filter isWarning ?stops = []" by (simp split: option.splits)
  have "fleetInvariant ?m1" using inv q by (rule fleetInvariant_quiet_effects)
  then have "fleetInvariant ?m2" using ord by (rule AddServer_fleetInvariant)
  then have "fleetInvariant (?m2\<lparr>effects := effects ?m2 @ [Start server]\<rparr>)"
    by (rule fleetInvariant_quiet_effects) simp
  then show ?thesis by (simp add: ReloadService_ok [OF Inr])
qed


lemma fold_ReloadService_fleetInvariant:
  assumes "fleetInvariant m" and "fairOrder env"
  shows "fleetInvariant
           (fold (\<lambda>svcRef m'. snd (ReloadService env (ref_Name svcRef) (ref_Usecase svcRef) m')) refs m)"
  using assms
proof (induction refs arbitrary: m)
  case Nil
  then show ?case by simp
next
  case (Cons r rest)
  from Cons.prems have "fleetInvariant (snd (ReloadService env (ref_Name r) (ref_Usecase r) m))"
    by (intro ReloadService_fleetInvariant)
  with Cons.IH Cons.prems(2) show ?case by simp
qed

lemma fold_stopRemoved_fleetInvariant:
  assumes "fleetInvariant m"
  shows "fleetInvariant
           (fold (\<lambda>name m'. if name \<notin> processed then stopRemoved name m' else m') names m)"
  using assms
proof (induction names arbitrary: m)
  case Nil
  then show ?case by simp
next
  case (Cons n rest)
  from Cons.prems have "fleetInvariant (if n \<notin> processed then stopRemoved n m else m)"
    by (simp add: stopRemoved_fleetInvariant)
  with Cons.IH show ?case by simp
qed

lemma ReloadGlobalConfig_fleetInvariant:
  assumes inv: "fleetInvariant m" and ord: "fairOrder env"
  shows "fleetInvariant (snd (ReloadGlobalConfig env m))"
proof (cases "LoadGlobalConfig env (filepath_Join env [ConfigRoot m, ''config.yaml''])")
  case (Inl err)
  with inv show ?thesis by (simp add: ReloadGlobalConfig_def)
next
  case (Inr cfg)
  show ?thesis
  proof (cases "IsValid (ValidateGlobalConfig cfg)")
    case False
    with Inr inv show ?thesis by (simp add: ReloadGlobalConfig_def)
  next
    case True
    let ?m1 = "fold (\<lambda>svcRef m'. snd (ReloadService env (ref_Name svcRef) (ref_Usecase svcRef) m'))
                 (Services cfg) m"
    have "fleetInvariant ?m1" using inv ord by (rule fold_ReloadService_fleetInvariant)
    then have "fleetInvariant
        (fold (\<lambda>name m'. if name \<notin> set (map ref_Name (Services cfg)) then stopRemoved name m' else m')
           (mapOrder env (remdups (map ServiceName (Servers m)))) ?m1)"
      by (rule fold_stopRemoved_fleetInvariant)
    with Inr True show ?thesis by (simp add: ReloadGlobalConfig_def Let_def)
  qed
qed

lemma applyOp_fleetInvariant:
  assumes "fleetInvariant m" and "fairOrder (fst step)"
  shows "fleetInvariant (applyOp step m)"
proof (cases step)
  case (Pair env op)
  with assms show ?thesis
    by (cases op)
       (simp_all add: AddServer_fleetInvariant ReloadService_fleetInvariant
          ReloadGlobalConfig_fleetInvariant)
qed

lemma fold_applyOp_fleetInvariant:
  assumes "fleetInvariant m" and "\<forall>step \<in> set steps. fairOrder (fst step)"
  shows "fleetInvariant (fold applyOp steps m)"
  using assms
proof (induction steps arbitrary: m)
  case Nil
  then show ?case by simp
next
  case (Cons step rest)
  from Cons.prems have "fleetInvariant (applyOp step m)"
    by (intro applyOp_fleetInvariant) simp_all
  with Cons.IH Cons.prems(2) show ?case by simp
qed

lemma NewServerManager_fleetInvariant: "fleetInvariant (NewServerManager configRoot)"
  by (simp add: fleetInvariant_def namesConsistent_def portEntries_def NewServerManager_def)

lemma stopRemoved_entries:
  assumes "GetServerByService m name = Some server"
  shows "map_of (serviceMap (stopRemoved name m)) name = None \<and>
         map_of (portMap (stopRemoved name m)) (Port server) = None"
  using assms by (simp add: stopRemoved_def delete_conv')

text \<open>
  C4, as the code has it. After any sequence of \<open>AddServer\<close>, \<open>ReloadService\<close> and
  \<open>ReloadGlobalConfig\<close> on a new manager, the slice and the service map describe the same
  servers, one entry per name. As long as no operation logged a port-in-use warning (no
  server was registered on a port another service held), the port map holds exactly the
  ports of those servers and no two servers share a port. Taking a service out removes
  its entry of the service map and the entry of its port.
\<close>

theorem fleet_maps_consistent:
  assumes "\<forall>step \<in> set steps. fairOrder (fst step)"
  shows "namesConsistent (fold applyOp steps (NewServerManager configRoot)) \<and>
         (warnings (fold applyOp steps (NewServerManager configRoot)) = [] \<longrightarrow>
            portEntries (fold applyOp steps (NewServerManager configRoot)) \<and>
            distinct (map Port (Servers (fold applyOp steps (NewServerManager configRoot))))) \<and>
         (\<forall>m name server.
            GetServerByService m name = Some server \<longrightarrow>
              map_of (serviceMap (stopRemoved name m)) name = None \<and>
              map_of (portMap (stopRemoved name m)) (Port server) = None)"
proof -
  have "fleetInvariant (fold applyOp steps (NewServerManager configRoot))"
    using NewServerManager_fleetInvariant assms by (rule fold_applyOp_fleetInvariant)
  then show ?thesis
    using stopRemoved_entries by (simp add: fleetInvariant_def)
qed

text \<open>
  The claim extends the invariant to services configured with the same port. The port map
  is a set of ports (\<open>map[int]bool\<close>): with \<open>A\<close> and \<open>B\<close> both on 8080, replacing \<open>A\<close> by a
  server on 8081 deletes the entry 8080, and \<open>B\<close>, still registered on 8080, has no port
  entry left.
\<close>

theorem fleet_maps_shared_port:
  "\<not> fleetConsistent
       (fold applyOp
          [(exampleEnv, OpAddServer (serverOn ''A'' 8080)),
           (exampleEnv, OpAddServer (serverOn ''B'' 8080)),
           (exampleEnv, OpAddServer (serverOn ''A'' 8081))]
          (NewServerManager ''/cfg''))"
  by (simp add: fleetConsistent_def portEntries_def namesConsistent_def AddServer_def
      isPortInUse_def NewServerManager_def serverOn_def NewMockServer_def exampleEnv_def Let_def)






lemma ReloadService_ConfigRoot:
  "ConfigRoot (snd (ReloadService env serviceName usecase m)) = ConfigRoot m"
proof (cases "reloadOutcome env (ConfigRoot m) serviceName usecase")
  case (Inl err)
  then show ?thesis by (simp add: ReloadService_fail)
next
  case (Inr server)
  then show ?thesis by (simp add: ReloadService_ok AddServer_ConfigRoot)
qed





lemma fold_ReloadService_ConfigRoot:
  "ConfigRoot (fold (\<lambda>svcRef m'. snd (ReloadService env (ref_Name svcRef) (ref_Usecase svcRef) m')) refs m)
     = ConfigRoot m"
  by (induction refs arbitrary: m) (simp_all add: ReloadService_ConfigRoot)














lemma twoServices_eq:
  "twoServices =
     \<lparr>Servers = [serverOn ''A'' 8081, serverOn ''B'' 8082], ConfigRoot = ''/cfg'',
      serviceMap = [(''A'', serverOn ''A'' 8081), (''B'', serverOn ''B'' 8082)],
      portMap = [(8081, True), (8082, True)], effects = []\<rparr>"
  by (simp add: twoServices_def AddServer_def isPortInUse_def NewServerManager_def serverOn_def
      NewMockServer_def exampleEnv_def Let_def)

lemma exampleEnv_fair: "fairOrder exampleEnv"
  by (simp add: fairOrder_def exampleEnv_def)

lemma serverOn_sel [simp]:
  "ServiceName (serverOn name port) = name" "Port (serverOn name port) = port"
  by (simp_all add: serverOn_def NewMockServer_def)



lemma example_outcome:
  "reloadOutcome exampleEnv ''/cfg'' ''B'' ''u3'' = Inr reloadedB"
  by (simp add: reloadOutcome_def LoadServiceConfig_def LoadMockConfigs_def exampleEnv_def
      Separator_def IsValid_def ValidateServiceConfig_def ValidateMockConfigs_def u3Mocks_def
      validMethods_def reloadedB_def Let_def)




lemma ReloadService_error_iff:
  "fst (ReloadService env serviceName usecase m) = Some err \<longleftrightarrow>
     reloadOutcome env (ConfigRoot m) serviceName usecase = Inl err"
proof (cases "reloadOutcome env (ConfigRoot m) serviceName usecase")
  case (Inl e)
  then show ?thesis by (simp add: ReloadService_fail)
next
  case (Inr server)
  then show ?thesis by (simp add: ReloadService_ok)
qed

lemma reloadOutcome_causes:
  "(\<exists>err. reloadOutcome env configRoot serviceName usecase = Inl err) \<longleftrightarrow>
     (\<exists>e. LoadServiceConfig env configRoot serviceName = Inl e) \<or>
     (\<exists>c. LoadServiceConfig env configRoot serviceName = Inr c \<and> \<not> IsValid (ValidateServiceConfig c)) \<or>
     (\<exists>e. LoadMockConfigs env configRoot serviceName usecase = Inl e) \<or>
     (\<exists>mocks. LoadMockConfigs env configRoot serviceName usecase = Inr mocks \<and>
        \<not> IsValid (ValidateMockConfigs (ToUpper env) mocks))"
  by (cases "LoadServiceConfig env configRoot serviceName";
      cases "LoadMockConfigs env configRoot serviceName usecase")
     (simp_all add: reloadOutcome_def)

text \<open>
  C6. If the service configuration does not load or does not validate, or the mocks do not
  load or do not validate, \<open>ReloadService\<close> returns an error and the manager is as it was:
  slice, both maps and effects (the running server was not stopped). And whenever it
  returns an error, the manager is unchanged.
\<close>

theorem ReloadService_failure_keeps_state:
  "((\<exists>e. LoadServiceConfig env (ConfigRoot m) serviceName = Inl e) \<or>
    (\<exists>c. LoadServiceConfig env (ConfigRoot m) serviceName = Inr c \<and>
       \<not> IsValid (ValidateServiceConfig c)) \<or>
    (\<exists>e. LoadMockConfigs env (ConfigRoot m) serviceName usecase = Inl e) \<or>
    (\<exists>mocks. LoadMockConfigs env (ConfigRoot m) serviceName usecase = Inr mocks \<and>
       \<not> IsValid (ValidateMockConfigs (ToUpper env) mocks))
    \<longrightarrow> (\<exists>err. ReloadService env serviceName usecase m = (Some err, m))) \<and>
   (\<forall>err m'. ReloadService env serviceName usecase m = (Some err, m') \<longrightarrow> m' = m)"
proof (intro conjI impI allI)
  assume "(\<exists>e. LoadServiceConfig env (ConfigRoot m) serviceName = Inl e) \<or>
    (\<exists>c. LoadServiceConfig env (ConfigRoot m) serviceName = Inr c \<and>
       \<not> IsValid (ValidateServiceConfig c)) \<or>
    (\<exists>e. LoadMockConfigs env (ConfigRoot m) serviceName usecase = Inl e) \<or>
    (\<exists>mocks. LoadMockConfigs env (ConfigRoot m) serviceName usecase = Inr mocks \<and>
       \<not> IsValid (ValidateMockConfigs (ToUpper env) mocks))"
  then obtain err where "reloadOutcome env (ConfigRoot m) serviceName usecase = Inl err"
    unfolding reloadOutcome_causes [symmetric] by blast
  then have "ReloadService env serviceName usecase m = (Some err, m)"
    by (rule ReloadService_fail)
  then show "\<exists>err. ReloadService env serviceName usecase m = (Some err, m)" ..
next
  fix err m'
  assume a: "ReloadService env serviceName usecase m = (Some err, m')"
  then have "fst (ReloadService env serviceName usecase m) = Some err" by simp
  then have "reloadOutcome env (ConfigRoot m) serviceName usecase = Inl err"
    by (simp add: ReloadService_error_iff)
  then have "ReloadService env serviceName usecase m = (Some err, m)"
    by (rule ReloadService_fail)
  with a show "m' = m" by simp
qed

theorem ReloadService_failure_keeps_state_witness:
  "\<exists>err. ReloadService exampleEnv ''A'' ''u1'' twoServices = (Some err, twoServices)"
proof -
  have "LoadServiceConfig exampleEnv (ConfigRoot twoServices) ''A'' = Inl FileNotFound"
    by (simp add: twoServices_eq LoadServiceConfig_def exampleEnv_def Separator_def)
  then show ?thesis
    using ReloadService_failure_keeps_state [of exampleEnv twoServices "''A''" "''u1''"] by blast
qed

lemma LoadServiceConfig_globalFile:
  "LoadServiceConfig (env\<lparr>globalFile := g\<rparr>) configRoot serviceName =
     LoadServiceConfig env configRoot serviceName"
  by (simp add: LoadServiceConfig_def)

lemma LoadMockConfigs_globalFile:
  "LoadMockConfigs (env\<lparr>globalFile := g\<rparr>) configRoot serviceName usecase =
     LoadMockConfigs env configRoot serviceName usecase"
  by (simp add: LoadMockConfigs_def)

lemma isPortInUse_globalFile:
  "isPortInUse (env\<lparr>globalFile := g\<rparr>) m port name = isPortInUse env m port name"
  by (simp add: isPortInUse_def)

lemma AddServer_globalFile:
  "AddServer (env\<lparr>globalFile := g\<rparr>) server m = AddServer env server m"
  by (simp add: AddServer_def isPortInUse_globalFile)

lemma ReloadService_globalFile:
  "ReloadService (env\<lparr>globalFile := g\<rparr>) serviceName usecase m =
     ReloadService env serviceName usecase m"
  by (simp add: ReloadService_def LoadServiceConfig_globalFile LoadMockConfigs_globalFile
      AddServer_globalFile cong: sum.case_cong if_cong)

text \<open>
  C10. For a change event that is not a deletion and has type \<open>service\<close>,
  \<open>getServiceUsecase\<close> gives the constant \<open>default\<close> with no error, the handler does what
  \<open>ReloadService\<close> does for the event's service and the usecase \<open>default\<close>, and the global
  configuration on disk plays no part in it.
\<close>

theorem handleConfigChange_service_default:
  assumes "\<not> ev_IsDeleted event" and "ev_ConfigType event = ''service''"
  shows "getServiceUsecase (ConfigRoot m) (ev_ServiceID event) = (''default'', None) \<and>
         handleConfigChange env event m =
           snd (ReloadService env (ev_ServiceID event) ''default'' m) \<and>
         handleConfigChange (env\<lparr>globalFile := g\<rparr>) event m = handleConfigChange env event m"
  using assms
  by (simp add: handleConfigChange_def getServiceUsecase_def ReloadService_globalFile)

theorem handleConfigChange_service_default_witness:
  "handleConfigChange exampleEnv serviceChangeB twoServices =
     snd (ReloadService exampleEnv ''B'' ''default'' twoServices) \<and>
   handleConfigChange exampleEnv serviceChangeB twoServices = twoServices"
proof -
  have 1: "handleConfigChange exampleEnv serviceChangeB twoServices =
     snd (ReloadService exampleEnv ''B'' ''default'' twoServices)"
    using handleConfigChange_service_default
      [where event = serviceChangeB and env = exampleEnv and m = twoServices]
    by (simp add: serviceChangeB_def)
  have "reloadOutcome exampleEnv (ConfigRoot twoServices) ''B'' ''default'' =
      Inl (LoadMockConfigsFailed FileNotFound)"
    by (simp add: twoServices_eq reloadOutcome_def LoadServiceConfig_def LoadMockConfigs_def
        exampleEnv_def Separator_def IsValid_def ValidateServiceConfig_def Let_def)
  then have "snd (ReloadService exampleEnv ''B'' ''default'' twoServices) = twoServices"
    by (simp add: ReloadService_fail)
  with 1 show ?thesis by simp
qed

theorem fleet_maps_consistent_witness:
  "namesConsistent
     (fold applyOp
        [(exampleEnv, OpAddServer (serverOn ''A'' 8081)),
         (exampleEnv, OpAddServer (serverOn ''B'' 8082)),
         (exampleEnv, OpReloadService ''B'' ''u3'')]
        (NewServerManager ''/cfg'')) \<and>
   portEntries
     (fold applyOp
        [(exampleEnv, OpAddServer (serverOn ''A'' 8081)),
         (exampleEnv, OpAddServer (serverOn ''B'' 8082)),
         (exampleEnv, OpReloadService ''B'' ''u3'')]
        (NewServerManager ''/cfg''))"
proof -
  let ?steps = "[(exampleEnv, OpAddServer (serverOn ''A'' 8081)),
         (exampleEnv, OpAddServer (serverOn ''B'' 8082)),
         (exampleEnv, OpReloadService ''B'' ''u3'')]"
  have fair: "\<forall>step \<in> set ?steps. fairOrder (fst step)"
    by (simp add: exampleEnv_fair)
  have run: "fold applyOp ?steps (NewServerManager ''/cfg'') =
      snd (ReloadService exampleEnv ''B'' ''u3'' twoServices)"
    by (simp add: twoServices_def)
  have "reloadOutcome exampleEnv (ConfigRoot twoServices) ''B'' ''u3'' = Inr reloadedB"
    by (simp add: twoServices_eq example_outcome)
  from ReloadService_ok [OF this]
  have "warnings (snd (ReloadService exampleEnv ''B'' ''u3'' twoServices)) = []"
    by (simp add: warnings_def AddServer_effects isPortInUse_def twoServices_eq exampleEnv_def
        GetServerByService_def reloadedB_def NewMockServer_def)
  then have quiet: "warnings (fold applyOp ?steps (NewServerManager ''/cfg'')) = []"
    by (simp only: run)
  from fleet_maps_consistent [OF fair, of "''/cfg''"] quiet show ?thesis by blast
qed

section \<open>Properties of the debounce\<close>

lemma timerFired_fires:
  "timerFired dl e cw = (if fires cw (dl, e) then cw\<lparr>callbacks := callbacks cw @ [(dl, e)]\<rparr> else cw)"
  by (simp add: timerFired_def fires_def split: option.splits)

lemma fires_callbacks [simp]: "fires (cw\<lparr>callbacks := c\<rparr>) x = fires cw x"
  by (simp add: fires_def split: option.splits)

lemma fold_timerFired:
  "fold (\<lambda>(deadline, event). timerFired deadline event) ts cw =
     cw\<lparr>callbacks := callbacks cw @ filter (fires cw) ts\<rparr>"
proof (induction ts arbitrary: cw)
  case Nil
  show ?case by simp
next
  case (Cons x rest)
  obtain dl e where x: "x = (dl, e)" by (cases x)
  have "fold (\<lambda>(deadline, event). timerFired deadline event) (x # rest) cw =
      fold (\<lambda>(deadline, event). timerFired deadline event) rest (timerFired dl e cw)"
    by (simp add: x)
  also have "\<dots> = (timerFired dl e cw)\<lparr>callbacks := callbacks (timerFired dl e cw) @
      filter (fires (timerFired dl e cw)) rest\<rparr>"
    by (rule Cons.IH)
  also have "\<dots> = cw\<lparr>callbacks := callbacks cw @ filter (fires cw) (x # rest)\<rparr>"
    by (cases "fires cw (dl, e)") (simp_all add: timerFired_fires x cong: filter_cong)
  finally show ?case .
qed

lemma advance_eq:
  "advance t cw =
     cw\<lparr>timers := filter (\<lambda>x. \<not> fst x \<le> t) (timers cw),
        callbacks := callbacks cw @ filter (fires cw) (filter (\<lambda>x. fst x \<le> t) (timers cw))\<rparr>"
proof -
  have 1: "(\<lambda>(deadline, event). deadline \<le> t) = (\<lambda>x :: int \<times> ConfigChangeEvent. fst x \<le> t)"
    by auto
  have 2: "(\<lambda>(deadline, event). \<not> deadline \<le> t) = (\<lambda>x :: int \<times> ConfigChangeEvent. \<not> fst x \<le> t)"
    by auto
  have 3: "fires (cw\<lparr>timers := ts\<rparr>) = fires cw" for ts
    by (rule ext) (simp add: fires_def split: option.splits)
  show ?thesis
    by (simp add: advance_def fold_timerFired 1 2 3)
qed


lemma debounced_append:
  "xs \<noteq> [] \<Longrightarrow>
     debounced delay t prev (xs @ y # ys) =
       debounced delay (fst y) prev xs @ debounced delay t (Some (fst (last xs))) (y # ys)"
proof (induction xs arbitrary: prev)
  case Nil
  then show ?case by simp
next
  case (Cons a xs)
  show ?case
  proof (cases xs)
    case Nil
    then show ?thesis by simp
  next
    case (Cons b others)
    with Cons.IH [of "Some (fst a)"] show ?thesis by simp
  qed
qed

lemma debounced_later:
  "t \<le> t' \<Longrightarrow>
     debounced delay t' prev ps =
       debounced delay t prev ps @
         (if pendingAt delay t prev ps \<and> fst (last ps) + delay \<le> t'
          then [(fst (last ps) + delay, snd (last ps))] else [])"
  by (induction delay t prev ps rule: pendingAt.induct) auto

lemma pendingAt_snoc:
  "pendingAt delay t prev (ps @ [a]) =
     (\<not> (case (if ps = [] then prev else Some (fst (last ps))) of
           None \<Rightarrow> True | Some p \<Rightarrow> fst a - p \<ge> delay) \<and> t < fst a + delay)"
proof (induction delay t prev ps rule: pendingAt.induct)
  case (1 delay t prev)
  show ?case by simp
next
  case (2 delay t prev b)
  show ?case by simp
next
  case (3 delay t prev b c rest)
  then show ?case by simp
qed

lemma pendingAt_later:
  "t \<le> t' \<Longrightarrow>
     pendingAt delay t' prev ps = (pendingAt delay t prev ps \<and> t' < fst (last ps) + delay)"
  by (induction delay t prev ps rule: pendingAt.induct) auto


lemma forPath_filter: "forPath path (filter P xs) = filter P (forPath path xs)"
  by (induction xs) (simp_all add: forPath_def)

lemma forPath_append: "forPath path (xs @ ys) = forPath path xs @ forPath path ys"
  by (simp add: forPath_def)

lemma forPath_path: "x \<in> set (forPath path xs) \<Longrightarrow> ev_Path (snd x) = path"
  by (simp add: forPath_def)

lemma tracks_advance:
  assumes tr: "tracks delay path t ps cw" and le: "t \<le> t'"
  shows "tracks delay path t' ps (advance t' cw)"
proof -
  let ?live = "if pendingAt delay t None ps then [(fst (last ps) + delay, snd (last ps))] else []"
  from tr obtain dead where d: "debounceDelay cw = delay"
    and rec: "map_of (recentEvents cw) path = (if ps = [] then None else Some (fst (last ps)))"
    and seen: "ps \<noteq> [] \<longrightarrow> fst (last ps) \<le> t"
    and cb: "forPath path (callbacks cw) = debounced delay t None ps"
    and tm: "forPath path (timers cw) = dead @ ?live"
    and dead: "list_all (\<lambda>x. ps \<noteq> [] \<and> fst x < fst (last ps) + delay) dead"
    unfolding tracks_def by blast
  have on_path: "ev_Path (snd x) = path" if "x \<in> set (dead @ ?live)" for x
    using that forPath_path [of x path "timers cw"] by (simp only: tm)
  have dead_quiet: "\<not> fires cw x" if "x \<in> set dead" for x
  proof -
    from that dead have "ps \<noteq> []" "fst x < fst (last ps) + delay"
      by (simp_all add: list_all_iff)
    moreover from that have "ev_Path (snd x) = path" by (intro on_path) simp
    ultimately show ?thesis using rec d by (simp add: fires_def)
  qed
  have live_fires: "fires cw (fst (last ps) + delay, snd (last ps))" if "pendingAt delay t None ps"
  proof -
    from that have ne: "ps \<noteq> []" by auto
    from that have "ev_Path (snd (fst (last ps) + delay, snd (last ps))) = path"
      by (intro on_path) simp
    then show ?thesis using rec d ne by (simp add: fires_def)
  qed
  have fired: "filter (fires cw) (filter (\<lambda>x. fst x \<le> t') (dead @ ?live)) =
      (if pendingAt delay t None ps \<and> fst (last ps) + delay \<le> t'
       then [(fst (last ps) + delay, snd (last ps))] else [])"
    using dead_quiet live_fires by (auto simp: filter_empty_conv)
  have kept: "filter (\<lambda>x. \<not> fst x \<le> t') (dead @ ?live) =
      filter (\<lambda>x. \<not> fst x \<le> t') dead @
      (if pendingAt delay t' None ps then [(fst (last ps) + delay, snd (last ps))] else [])"
    using pendingAt_later [OF le, of delay None ps] by auto
  have 1: "debounceDelay (advance t' cw) = delay" using d by (simp add: advance_eq)
  have 2: "map_of (recentEvents (advance t' cw)) path =
      (if ps = [] then None else Some (fst (last ps)))"
    using rec by (simp add: advance_eq)
  have 3: "ps \<noteq> [] \<longrightarrow> fst (last ps) \<le> t'" using seen le by auto
  have "forPath path (callbacks (advance t' cw)) =
      forPath path (callbacks cw) @
      filter (fires cw) (filter (\<lambda>x. fst x \<le> t') (forPath path (timers cw)))"
    by (simp add: advance_eq forPath_append forPath_filter)
  also have "\<dots> = debounced delay t None ps @
      (if pendingAt delay t None ps \<and> fst (last ps) + delay \<le> t'
       then [(fst (last ps) + delay, snd (last ps))] else [])"
    by (simp only: cb tm fired)
  also have "\<dots> = debounced delay t' None ps"
    by (simp only: debounced_later [OF le, of delay None ps])
  finally have 4: "forPath path (callbacks (advance t' cw)) = debounced delay t' None ps" .
  have "forPath path (timers (advance t' cw)) =
      filter (\<lambda>x. \<not> fst x \<le> t') (forPath path (timers cw))"
    by (simp add: advance_eq forPath_filter)
  also have "\<dots> = filter (\<lambda>x. \<not> fst x \<le> t') dead @
      (if pendingAt delay t' None ps then [(fst (last ps) + delay, snd (last ps))] else [])"
    by (simp only: tm kept)
  finally have 5: "forPath path (timers (advance t' cw)) =
      filter (\<lambda>x. \<not> fst x \<le> t') dead @
      (if pendingAt delay t' None ps then [(fst (last ps) + delay, snd (last ps))] else [])" .
  have 6: "list_all (\<lambda>x. ps \<noteq> [] \<and> fst x < fst (last ps) + delay)
      (filter (\<lambda>x. \<not> fst x \<le> t') dead)"
    using dead by (auto simp: list_all_iff)
  show ?thesis
    unfolding tracks_def using 1 2 3 4 5 6 by blast
qed

lemma tracks_other:
  assumes tr: "tracks delay path t ps cw" and other: "ev_Path e \<noteq> path"
  shows "tracks delay path t ps (debounceEvent t' e cw)"
proof -
  have 1: "debounceDelay (debounceEvent t' e cw) = debounceDelay cw"
    by (simp add: debounceEvent_def Let_def split: option.splits)
  have 2: "map_of (recentEvents (debounceEvent t' e cw)) path = map_of (recentEvents cw) path"
    using other by (simp add: debounceEvent_def Let_def update_conv' split: option.splits)
  have 3: "forPath path (callbacks (debounceEvent t' e cw)) = forPath path (callbacks cw)"
    using other by (simp add: debounceEvent_def Let_def forPath_def split: option.splits)
  have 4: "forPath path (timers (debounceEvent t' e cw)) = forPath path (timers cw)"
    using other by (simp add: debounceEvent_def Let_def forPath_def split: option.splits)
  show ?thesis
    using tr unfolding tracks_def 1 2 3 4 .
qed


lemma debounceEvent_first:
  "map_of (recentEvents cw) (ev_Path e) = None \<Longrightarrow>
     debounceEvent t e cw =
       cw\<lparr>recentEvents := AList.update (ev_Path e) t (recentEvents cw),
          callbacks := callbacks cw @ [(t, e)]\<rparr>"
  by (simp add: debounceEvent_def)

lemma debounceEvent_rapid:
  "map_of (recentEvents cw) (ev_Path e) = Some l \<Longrightarrow> t - l < debounceDelay cw \<Longrightarrow>
     debounceEvent t e cw =
       cw\<lparr>recentEvents := AList.update (ev_Path e) t (recentEvents cw),
          timers := timers cw @ [(t + debounceDelay cw, e)]\<rparr>"
  by (simp add: debounceEvent_def)

lemma debounceEvent_quiet:
  "map_of (recentEvents cw) (ev_Path e) = Some l \<Longrightarrow> \<not> t - l < debounceDelay cw \<Longrightarrow>
     debounceEvent t e cw =
       cw\<lparr>recentEvents := AList.update (ev_Path e) t (recentEvents cw),
          callbacks := callbacks cw @ [(t, e)]\<rparr>"
  by (simp add: debounceEvent_def)

lemma tracks_same:
  assumes tr: "tracks delay path t ps cw" and same: "ev_Path e = path"
    and later: "ps \<noteq> [] \<longrightarrow> fst (last ps) < t"
  shows "tracks delay path t (ps @ [(t, e)]) (debounceEvent t e cw)"
proof -
  let ?live = "if pendingAt delay t None ps then [(fst (last ps) + delay, snd (last ps))] else []"
  from tr obtain dead where d: "debounceDelay cw = delay"
    and rec: "map_of (recentEvents cw) path = (if ps = [] then None else Some (fst (last ps)))"
    and cb: "forPath path (callbacks cw) = debounced delay t None ps"
    and tm: "forPath path (timers cw) = dead @ ?live"
    and dead: "list_all (\<lambda>x. ps \<noteq> [] \<and> fst x < fst (last ps) + delay) dead"
    unfolding tracks_def by blast
  let ?ps = "ps @ [(t, e)]"
  have 1: "debounceDelay (debounceEvent t e cw) = delay"
    using d by (simp add: debounceEvent_def Let_def split: option.splits)
  have 2: "map_of (recentEvents (debounceEvent t e cw)) path =
      (if ?ps = [] then None else Some (fst (last ?ps)))"
    using same by (simp add: debounceEvent_def Let_def update_conv' split: option.splits)
  have 3: "?ps \<noteq> [] \<longrightarrow> fst (last ?ps) \<le> t" by simp
  have old: "list_all (\<lambda>x. ?ps \<noteq> [] \<and> fst x < fst (last ?ps) + delay) (dead @ ?live)"
    using dead later by (auto simp: list_all_iff)
  show ?thesis
  proof (cases "ps = []")
    case True
    with rec have none: "map_of (recentEvents cw) (ev_Path e) = None" by (simp add: same)
    from True cb have 4: "forPath path (callbacks (debounceEvent t e cw)) = debounced delay t None ?ps"
      using same by (simp add: debounceEvent_first [OF none] forPath_def)
    have 5: "forPath path (timers (debounceEvent t e cw)) =
        (dead @ ?live) @ (if pendingAt delay t None ?ps
                          then [(fst (last ?ps) + delay, snd (last ?ps))] else [])"
      using True tm by (simp add: debounceEvent_first [OF none])
    show ?thesis
      unfolding tracks_def using 1 2 3 4 5 old by blast
  next
    case False
    with rec have some: "map_of (recentEvents cw) (ev_Path e) = Some (fst (last ps))"
      by (simp add: same)
    from False later have lt: "fst (last ps) < t" by simp
    have app: "debounced delay t None ?ps =
        debounced delay t None ps @ debounced delay t (Some (fst (last ps))) [(t, e)]"
      using debounced_append [OF False, of delay t None "(t, e)" "[]"] by simp
    have pend: "pendingAt delay t None ?ps = (t - fst (last ps) < delay)"
      using False lt by (auto simp: pendingAt_snoc)
    show ?thesis
    proof (cases "t - fst (last ps) < delay")
      case True
      with lt have pos: "\<not> t + delay \<le> t" by simp
      from True d have r: "t - fst (last ps) < debounceDelay cw" by simp
      have 4: "forPath path (callbacks (debounceEvent t e cw)) = debounced delay t None ?ps"
        using True cb pos by (simp add: debounceEvent_rapid [OF some r] app)
      have 5: "forPath path (timers (debounceEvent t e cw)) =
          (dead @ ?live) @ (if pendingAt delay t None ?ps
                            then [(fst (last ?ps) + delay, snd (last ?ps))] else [])"
        using True d tm same
        by (simp add: debounceEvent_rapid [OF some r] pend forPath_def)
      show ?thesis
        unfolding tracks_def using 1 2 3 4 5 old by blast
    next
      case quiet: False
      with d have q: "\<not> t - fst (last ps) < debounceDelay cw" by simp
      have 4: "forPath path (callbacks (debounceEvent t e cw)) = debounced delay t None ?ps"
        using quiet cb same by (simp add: debounceEvent_quiet [OF some q] app forPath_def)
      have 5: "forPath path (timers (debounceEvent t e cw)) =
          (dead @ ?live) @ (if pendingAt delay t None ?ps
                            then [(fst (last ?ps) + delay, snd (last ?ps))] else [])"
        using quiet tm by (simp add: debounceEvent_quiet [OF some q] pend)
      show ?thesis
        unfolding tracks_def using 1 2 3 4 5 old by blast
    qed
  qed
qed


lemma tracks_arrive:
  assumes tr: "tracks delay path t ps cw" and lt: "t < fst a"
  shows "tracks delay path (fst a) (ps @ forPath path [a]) (arrive a cw)"
proof -
  from lt have "t \<le> fst a" by simp
  with tr have adv: "tracks delay path (fst a) ps (advance (fst a) cw)" by (rule tracks_advance)
  from tr have "ps \<noteq> [] \<longrightarrow> fst (last ps) \<le> t" by (simp add: tracks_def)
  with lt have later: "ps \<noteq> [] \<longrightarrow> fst (last ps) < fst a" by auto
  show ?thesis
  proof (cases "ev_Path (snd a) = path")
    case True
    from tracks_same [OF adv True later] True show ?thesis
      by (simp add: arrive_def forPath_def)
  next
    case False
    from tracks_other [OF adv False, of "fst a"] False show ?thesis
      by (simp add: arrive_def forPath_def)
  qed
qed

lemma tracks_fold_arrive:
  assumes "tracks delay path t ps cw" and "sorted_wrt (<) (map fst arrivals)"
    and "\<forall>a \<in> set arrivals. t < fst a"
  shows "tracks delay path (if arrivals = [] then t else fst (last arrivals))
           (ps @ forPath path arrivals) (fold arrive arrivals cw)"
  using assms
proof (induction arrivals arbitrary: t ps cw)
  case Nil
  then show ?case by (simp add: forPath_def)
next
  case (Cons a rest)
  from Cons.prems have lt: "t < fst a" by simp
  from Cons.prems(1) lt have step: "tracks delay path (fst a) (ps @ forPath path [a]) (arrive a cw)"
    by (rule tracks_arrive)
  from Cons.prems(2) have sorted: "sorted_wrt (<) (map fst rest)"
    and after: "\<forall>b \<in> set rest. fst a < fst b" by simp_all
  have 1: "ps @ forPath path (a # rest) = (ps @ forPath path [a]) @ forPath path rest"
    by (simp add: forPath_def)
  have 2: "(if a # rest = [] then t else fst (last (a # rest))) =
      (if rest = [] then fst a else fst (last rest))" by simp
  have 3: "fold arrive (a # rest) cw = fold arrive rest (arrive a cw)" by simp
  show ?case
    unfolding 1 2 3 by (rule Cons.IH [OF step sorted after])
qed

lemma tracks_new: "tracks delay path t [] (NewConfigWatcher delay)"
  by (simp add: tracks_def NewConfigWatcher_def forPath_def)

text \<open>
  What the watcher has called back for one path is what \<open>debounced\<close> tells from the
  arrivals for the path: the arrivals for other paths play no part.
\<close>

lemma watch_debounced:
  assumes times: "sorted_wrt (<) (map fst arrivals)" and seen: "\<forall>a \<in> set arrivals. fst a \<le> t"
  shows "forPath path (callbacks (watch arrivals t (NewConfigWatcher delay))) =
           debounced delay t None (forPath path arrivals)"
proof (cases "arrivals = []")
  case True
  then show ?thesis
    by (simp add: watch_def advance_eq NewConfigWatcher_def forPath_def)
next
  case False
  let ?t0 = "fst (hd arrivals) - 1"
  have before: "\<forall>a \<in> set arrivals. ?t0 < fst a"
  proof
    fix a assume a: "a \<in> set arrivals"
    from False obtain x rest where xs: "arrivals = x # rest" by (cases arrivals) auto
    with times a have "fst x \<le> fst a" by auto
    then show "?t0 < fst a" by (simp add: xs)
  qed
  from tracks_fold_arrive [OF tracks_new times before, of delay path] False
  have tr: "tracks delay path (fst (last arrivals)) (forPath path arrivals)
      (fold arrive arrivals (NewConfigWatcher delay))" by simp
  from False seen have "fst (last arrivals) \<le> t" by simp
  with tr have "tracks delay path t (forPath path arrivals)
      (advance t (fold arrive arrivals (NewConfigWatcher delay)))" by (rule tracks_advance)
  then show ?thesis by (simp add: tracks_def watch_def)
qed


lemma debounced_rapid:
  assumes "successively (rapid delay path) (a # rest)" and "fst a - p < delay"
  shows "debounced delay t (Some p) (a # rest) =
           (if fst (last (a # rest)) + delay \<le> t
            then [(fst (last (a # rest)) + delay, snd (last (a # rest)))] else [])"
  using assms
proof (induction rest arbitrary: a p)
  case Nil
  then show ?case by simp
next
  case (Cons b rest)
  from Cons.prems(1) have r: "rapid delay path a b"
    and s: "successively (rapid delay path) (b # rest)" by simp_all
  from r have near: "fst b - fst a < delay" "\<not> fst a + delay \<le> fst b"
    by (simp_all add: rapid_def)
  from Cons.IH [OF s near(1)] Cons.prems(2) near(2) show ?case by simp
qed

lemma debounced_burst:
  assumes leading: "case prev of None \<Rightarrow> True | Some p \<Rightarrow> fst first - p \<ge> delay"
    and burst: "successively (rapid delay path) (first # rest)"
  shows "debounced delay t prev (first # rest) =
           [first] @ (if rest \<noteq> [] \<and> fst (last rest) + delay \<le> t
                      then [(fst (last rest) + delay, snd (last rest))] else [])"
proof (cases rest)
  case Nil
  with leading show ?thesis by simp
next
  case (Cons b others)
  from burst Cons have r: "rapid delay path first b"
    and s: "successively (rapid delay path) (b # others)" by simp_all
  from r have near: "fst b - fst first < delay" by (simp add: rapid_def)
  from debounced_rapid [OF s near, of t] leading Cons show ?thesis by simp
qed

text \<open>
  C2, as the code has it. A new watcher receives change events at increasing times, for
  any paths, and is looked at at a time \<open>t\<close> not before the last of them. Take the events
  for one path, and let them end in a burst \<open>first # rest\<close>: each of its events comes less
  than one window after the one before, and no earlier event for the path came within
  the window before \<open>first\<close>. Then the callbacks made for the path are: those made before
  \<open>first\<close> arrived; the callback for \<open>first\<close>, at its arrival; and, when the burst has more
  than one event and a window has passed since its last one, one more callback, for the
  last event and one window after it. A burst of one event is called back once, a longer
  burst twice, the second time only after the path has been quiet for a window, and no
  event in between is called back. Since \<open>t\<close> is any instant before the path's next event,
  this is so for a burst at any point of the watcher's life.
\<close>

theorem debounce_burst:
  assumes times: "sorted_wrt (<) (map fst arrivals)"
    and seen: "\<forall>a \<in> set arrivals. fst a \<le> t"
    and path: "forPath path arrivals = before @ first # rest"
    and quiet: "before = [] \<or> fst (last before) + delay \<le> fst first"
    and burst: "successively (rapid delay path) (first # rest)"
  shows "forPath path (callbacks (watch arrivals t (NewConfigWatcher delay))) =
           forPath path
             (callbacks (watch (filter (\<lambda>a. fst a < fst first) arrivals) (fst first)
                (NewConfigWatcher delay))) @
           [first] @
           (if rest \<noteq> [] \<and> fst (last rest) + delay \<le> t
            then [(fst (last rest) + delay, snd (last rest))] else [])"
proof -
  let ?early = "filter (\<lambda>a. fst a < fst first) arrivals"
  let ?trailing = "if rest \<noteq> [] \<and> fst (last rest) + delay \<le> t
            then [(fst (last rest) + delay, snd (last rest))] else []"
  have all: "forPath path (callbacks (watch arrivals t (NewConfigWatcher delay))) =
      debounced delay t None (before @ first # rest)"
    using watch_debounced [OF times seen, of path delay] by (simp only: path)
  from times have "sorted_wrt (\<lambda>a b. fst a < fst b) arrivals"
    by (simp add: sorted_wrt_map)
  then have srt: "sorted_wrt (\<lambda>a b. fst a < fst b) (forPath path arrivals)"
    and srt_early: "sorted_wrt (\<lambda>a b. fst a < fst b) ?early"
    unfolding forPath_def by (rule sorted_wrt_filter)+
  from srt have lt: "\<forall>b \<in> set before. fst b < fst first"
    and gt: "\<forall>r \<in> set rest. fst first < fst r"
    unfolding path by (auto simp: sorted_wrt_append)
  have "forPath path ?early = filter (\<lambda>a. fst a < fst first) (before @ first # rest)"
    by (simp only: forPath_filter path)
  also have "\<dots> = before"
    using lt gt by (auto simp: filter_id_conv filter_empty_conv)
  finally have early: "forPath path ?early = before" .
  have "sorted_wrt (<) (map fst ?early)" using srt_early by (simp add: sorted_wrt_map)
  moreover have "\<forall>a \<in> set ?early. fst a \<le> fst first" by auto
  ultimately have pre: "forPath path (callbacks (watch ?early (fst first) (NewConfigWatcher delay))) =
      debounced delay (fst first) None before"
    using watch_debounced [of ?early "fst first" path delay] by (simp only: early)
  show ?thesis
  proof (cases "before = []")
    case True
    have "debounced delay t None (first # rest) = [first] @ ?trailing"
      by (rule debounced_burst [OF _ burst]) simp
    with True show ?thesis by (simp add: all pre)
  next
    case False
    with quiet have "case Some (fst (last before)) of None \<Rightarrow> True
        | Some p \<Rightarrow> fst first - p \<ge> delay" by simp
    then have "debounced delay t (Some (fst (last before))) (first # rest) = [first] @ ?trailing"
      using burst by (rule debounced_burst)
    with debounced_append [OF False, of delay t None first rest] show ?thesis
      by (simp add: all pre)
  qed
qed

text \<open>
  With a window of 500: changes to \<open>/cfg/B/config.yaml\<close> at 0, 100 and 200, with a change
  to another file in between, are called back at 0 and at 700; a further change at 10000
  is called back at once.
\<close>

theorem debounce_burst_witness:
  "forPath ''/cfg/B/config.yaml''
     (callbacks (watch [(0, changeAt ''/cfg/B/config.yaml''), (100, changeAt ''/cfg/B/config.yaml''),
                        (150, changeAt ''/cfg/A/config.yaml''),
                        (200, changeAt ''/cfg/B/config.yaml''),
                        (10000, changeAt ''/cfg/B/config.yaml'')] 10000 (NewConfigWatcher 500))) =
     [(0, changeAt ''/cfg/B/config.yaml''), (700, changeAt ''/cfg/B/config.yaml''),
      (10000, changeAt ''/cfg/B/config.yaml'')]"
proof -
  let ?b = "changeAt ''/cfg/B/config.yaml''"
  let ?a = "changeAt ''/cfg/A/config.yaml''"
  let ?burst = "[(0, ?b), (100, ?b), (150, ?a), (200, ?b)]"
  have first: "forPath ''/cfg/B/config.yaml'' (callbacks (watch ?burst 10000 (NewConfigWatcher 500))) =
      [(0, ?b), (700, ?b)]"
    using debounce_burst [of ?burst 10000 "''/cfg/B/config.yaml''" "[]" "(0, ?b)"
        "[(100, ?b), (200, ?b)]" 500]
    by (simp add: forPath_def rapid_def changeAt_def watch_def advance_def NewConfigWatcher_def)
  have "forPath ''/cfg/B/config.yaml''
      (callbacks (watch (?burst @ [(10000, ?b)]) 10000 (NewConfigWatcher 500))) =
      forPath ''/cfg/B/config.yaml'' (callbacks (watch ?burst 10000 (NewConfigWatcher 500))) @
      [(10000, ?b)]"
    using debounce_burst [of "?burst @ [(10000, ?b)]" 10000 "''/cfg/B/config.yaml''"
        "[(0, ?b), (100, ?b), (200, ?b)]" "(10000, ?b)" "[]" 500]
    by (simp add: forPath_def rapid_def changeAt_def)
  with first show ?thesis by simp
qed

text \<open>
  The claim asks for exactly one callback per burst, not before a quiet window. Three
  changes at times 0, 100 and 200 with a window of 500 give two callbacks: one at time 0,
  on the first change, and one at time 700.
\<close>

theorem debounce_leading_edge:
  "callbacks (watch [(0, changeAt ''/cfg/B/config.yaml''), (100, changeAt ''/cfg/B/config.yaml''),
                     (200, changeAt ''/cfg/B/config.yaml'')] 1000 (NewConfigWatcher 500)) =
     [(0, changeAt ''/cfg/B/config.yaml''), (700, changeAt ''/cfg/B/config.yaml'')]"
  by (simp add: watch_def arrive_def advance_def debounceEvent_def timerFired_def
      NewConfigWatcher_def changeAt_def)

end
